theory Spec2Isabelle
  imports Main "HOL-Library.Multiset"
begin

section \<open>Text\<close>

text \<open>
  Go strings are byte sequences; they are modelled as \<open>string\<close>, a list of 8-bit
  \<open>char\<close>s. Go's regular expression engine reads a text as UTF-8 runes; the
  runes of a text are modelled below as the list of their byte sequences.
\<close>

abbreviation backslash :: char where "backslash \<equiv> CHR 0x5C"
abbreviation newline :: char where "newline \<equiv> CHR 0x0A"
abbreviation carriage_return :: char where "carriage_return \<equiv> CHR 0x0D"

definition code :: "char \<Rightarrow> nat" where
  "code c = of_char c"

definition HasPrefix :: "string \<Rightarrow> string \<Rightarrow> bool" where
  "HasPrefix s pre = (take (length pre) s = pre)"

definition HasSuffix :: "string \<Rightarrow> string \<Rightarrow> bool" where
  "HasSuffix s suf = (length suf \<le> length s \<and> drop (length s - length suf) s = suf)"

text \<open>\<open>strings.TrimRight(s, cutset)\<close> and \<open>strings.Trim(s, cutset)\<close>.\<close>

definition TrimRight :: "string \<Rightarrow> string \<Rightarrow> string" where
  "TrimRight s cutset = rev (dropWhile (\<lambda>c. c \<in> set cutset) (rev s))"

definition Trim :: "string \<Rightarrow> string \<Rightarrow> string" where
  "Trim s cutset = dropWhile (\<lambda>c. c \<in> set cutset) (TrimRight s cutset)"

text \<open>
  \<open>strings.ReplaceAll(s, old, new)\<close> for a non-empty \<open>old\<close>: the non-overlapping
  occurrences of \<open>old\<close> are replaced from left to right. (For an empty \<open>old\<close>
  Go inserts \<open>new\<close> around every rune; the source never passes one, and the model
  leaves \<open>s\<close> unchanged there.)
\<close>

function strings_ReplaceAll :: "string \<Rightarrow> string \<Rightarrow> string \<Rightarrow> string" where
  "strings_ReplaceAll [] old new = []"
| "strings_ReplaceAll (c # cs) old new =
     (if old \<noteq> [] \<and> HasPrefix (c # cs) old
      then new @ strings_ReplaceAll (drop (length old) (c # cs)) old new
      else c # strings_ReplaceAll cs old new)"
  by pat_completeness auto
termination
  by (relation "measure (\<lambda>(s, old, new). length s)") auto

text \<open>
  \<open>utf8.DecodeRuneInString\<close> tells how many bytes the first rune of a text
  takes: an ASCII byte is a rune; a leading byte \<open>C2\<close> to \<open>F4\<close> with the
  one, two or three continuation bytes it announces, the first of them in the
  range the leading byte allows, is a rune of two, three or four bytes; any
  other byte is read alone (as the rune \<open>U+FFFD\<close>). \<open>conts lo hi n cs\<close> says
  that \<open>cs\<close> begins with \<open>n\<close> continuation bytes, the first one between \<open>lo\<close>
  and \<open>hi\<close>; \<open>rune_tail c cs\<close> is the number of bytes of \<open>cs\<close> that belong to
  the rune beginning with \<open>c\<close>.
\<close>

fun conts :: "nat \<Rightarrow> nat \<Rightarrow> nat \<Rightarrow> string \<Rightarrow> bool" where
  "conts lo hi 0 cs = True"
| "conts lo hi (Suc n) [] = False"
| "conts lo hi (Suc n) (c # cs) = (lo \<le> code c \<and> code c \<le> hi \<and> conts 0x80 0xBF n cs)"

definition rune_tail :: "char \<Rightarrow> string \<Rightarrow> nat" where
  "rune_tail c cs =
     (let x = code c in
      if x < 0xC2 \<or> 0xF4 < x then 0
      else if x < 0xE0 then (if conts 0x80 0xBF (Suc 0) cs then Suc 0 else 0)
      else if x < 0xF0 then
        (if conts (if x = 0xE0 then 0xA0 else 0x80) (if x = 0xED then 0x9F else 0xBF)
              (Suc (Suc 0)) cs
         then Suc (Suc 0) else 0)
      else
        (if conts (if x = 0xF0 then 0x90 else 0x80) (if x = 0xF4 then 0x8F else 0xBF)
              (Suc (Suc (Suc 0))) cs
         then Suc (Suc (Suc 0)) else 0))"

type_synonym rune = string

fun runes :: "string \<Rightarrow> rune list" where
  "runes [] = []"
| "runes (c # cs) = (c # take (rune_tail c cs) cs) # runes (drop (rune_tail c cs) cs)"

section \<open>The regular expressions of Go's \<open>regexp\<close> package\<close>

text \<open>
  The source builds one regular expression per rule and hands it to
  \<open>regexp.Compile\<close>; matching is \<open>Regexp.MatchString\<close>. Both belong to Go's
  standard library. They are modelled here on a fragment of the syntax: ASCII
  expressions without counted repetition, flags, Perl or POSIX or Unicode
  classes, numeric escapes and escaped letters other than the ones named below.
  For an expression outside the fragment the model answers \<open>Unmodelled\<close>: it
  does not say whether Go compiles the expression, and nothing is derived from
  that answer. \<open>Ok\<close> and \<open>Err\<close> are the two answers of Go.
\<close>

datatype ('e, 'a) outcome = Ok 'a | Err 'e | Unmodelled

datatype regex =
    EmptyMatch
  | Literal char
  | AnyCharNotNL
  | CharClass bool "(char \<times> char) list"
  | BeginText
  | EndText
  | Capture regex
  | Concat regex regex
  | Alternate regex regex
  | Star regex
  | Plus regex
  | Quest regex

datatype rx_error =
    ErrMissingBracket
  | ErrMissingParen
  | ErrUnexpectedParen
  | ErrMissingRepeatArgument
  | ErrInvalidRepeatOp
  | ErrInvalidCharRange
  | ErrTrailingBackslash

definition isalnum :: "char \<Rightarrow> bool" where
  "isalnum c = ((code (CHR ''0'') \<le> code c \<and> code c \<le> code (CHR ''9''))
             \<or> (code (CHR ''A'') \<le> code c \<and> code c \<le> code (CHR ''Z''))
             \<or> (code (CHR ''a'') \<le> code c \<and> code c \<le> code (CHR ''z'')))"

text \<open>
  \<open>parseEscape\<close>, applied to the text after the backslash: an escaped ASCII
  character that is neither a letter nor a digit stands for itself, and the
  control-character escapes are read. Every other escaped letter or digit
  (numeric escapes, classes, invalid escapes) is outside the fragment.
\<close>

fun parseEscape :: "string \<Rightarrow> (rx_error, char \<times> string) outcome" where
  "parseEscape [] = Err ErrTrailingBackslash"
| "parseEscape (c # t) =
     (if 128 \<le> code c then Unmodelled
      else if \<not> isalnum c then Ok (c, t)
      else if c = CHR ''a'' then Ok (CHR 0x07, t)
      else if c = CHR ''f'' then Ok (CHR 0x0C, t)
      else if c = CHR ''n'' then Ok (CHR 0x0A, t)
      else if c = CHR ''r'' then Ok (CHR 0x0D, t)
      else if c = CHR ''t'' then Ok (CHR 0x09, t)
      else if c = CHR ''v'' then Ok (CHR 0x0B, t)
      else Unmodelled)"

text \<open>\<open>parseClassChar\<close>: one character of a bracket expression.\<close>

fun parseClassChar :: "string \<Rightarrow> (rx_error, char \<times> string) outcome" where
  "parseClassChar [] = Err ErrMissingBracket"
| "parseClassChar (c # t) =
     (if c = backslash then parseEscape t
      else if 128 \<le> code c then Unmodelled
      else Ok (c, t))"

lemma parseEscape_shorter:
  "parseEscape s = Ok (c, t) \<Longrightarrow> length t < length s"
  by (cases s) (auto split: if_splits)

lemma parseClassChar_shorter:
  "parseClassChar s = Ok (c, t) \<Longrightarrow> length t < length s"
  by (cases s) (auto split: if_splits dest: parseEscape_shorter)

text \<open>
  \<open>parseClass\<close>, after the opening bracket and the optional \<open>^\<close>: single
  characters and ranges up to the closing bracket, which is an ordinary
  character when it comes first. The text running out is
  \<open>ErrMissingBracket\<close>, a range whose upper end is below its lower end is
  \<open>ErrInvalidCharRange\<close>.
\<close>

function parseClassItems ::
  "bool \<Rightarrow> bool \<Rightarrow> (char \<times> char) list \<Rightarrow> string \<Rightarrow> (rx_error, regex \<times> string) outcome" where
  "parseClassItems neg first acc t =
     (if t \<noteq> [] \<and> hd t = CHR '']'' \<and> \<not> first then Ok (CharClass neg (rev acc), tl t)
      else if 2 < length t \<and> hd t = CHR ''['' \<and> hd (tl t) = CHR '':'' then Unmodelled
      else if 2 \<le> length t \<and> hd t = backslash \<and> hd (tl t) \<in> set ''pPdDsSwW''
        then Unmodelled
      else
        (case parseClassChar t of
           Err e \<Rightarrow> Err e
         | Unmodelled \<Rightarrow> Unmodelled
         | Ok (lo, t1) \<Rightarrow>
             (if 2 \<le> length t1 \<and> hd t1 = CHR ''-'' \<and> hd (tl t1) \<noteq> CHR '']''
              then (case parseClassChar (tl t1) of
                      Err e \<Rightarrow> Err e
                    | Unmodelled \<Rightarrow> Unmodelled
                    | Ok (hi, t2) \<Rightarrow>
                        (if code hi < code lo then Err ErrInvalidCharRange
                         else parseClassItems neg False ((lo, hi) # acc) t2))
              else parseClassItems neg False ((lo, lo) # acc) t1)))"
  by pat_completeness auto
termination
proof (relation "measure (\<lambda>(neg, first, acc, t). length t)", goal_cases)
  case 1
  show ?case by simp
next
  case (2 neg first acc t x1 lo t1 x1a hi t2)
  from 2 have "length t1 < length t" "length t2 < length (tl t1)"
    by (auto dest: parseClassChar_shorter)
  then show ?case by (cases t1) auto
next
  case (3 neg first acc t x1 lo t1)
  then show ?case by (auto dest: parseClassChar_shorter)
qed

declare parseClassItems.simps [simp del]

definition parseClass :: "string \<Rightarrow> (rx_error, regex \<times> string) outcome" where
  "parseClass t =
     (if t \<noteq> [] \<and> hd t = CHR ''^'' then parseClassItems True True [] (tl t)
      else parseClassItems False True [] t)"

lemma parseClassItems_shorter:
  "parseClassItems neg first acc t = Ok (r, t') \<Longrightarrow> length t' \<le> length t"
proof (induction neg first acc t rule: parseClassItems.induct)
  case (1 neg first acc t)
  show ?case
  proof (cases "t \<noteq> [] \<and> hd t = CHR '']'' \<and> \<not> first")
    case True
    with "1.prems" show ?thesis
      by (subst (asm) parseClassItems.simps) auto
  next
    case False
    note nf = False
    from "1.prems" obtain lo t1 where pc: "parseClassChar t = Ok (lo, t1)"
      and n1: "\<not> (2 < length t \<and> hd t = CHR ''['' \<and> hd (tl t) = CHR '':'')"
      and n2: "\<not> (2 \<le> length t \<and> hd t = backslash \<and> hd (tl t) \<in> set ''pPdDsSwW'')"
      using nf
      by (subst (asm) parseClassItems.simps) (auto split: if_splits outcome.splits)
    have l1: "length t1 < length t" using pc by (rule parseClassChar_shorter)
    show ?thesis
    proof (cases "2 \<le> length t1 \<and> hd t1 = CHR ''-'' \<and> hd (tl t1) \<noteq> CHR '']''")
      case True
      with "1.prems" nf n1 n2 pc obtain hi t2 where
        pc2: "parseClassChar (tl t1) = Ok (hi, t2)" and ok: "\<not> code hi < code lo"
        and rec: "parseClassItems neg False ((lo, hi) # acc) t2 = Ok (r, t')"
        by (subst (asm) parseClassItems.simps) (auto split: if_splits outcome.splits)
      have "length t2 < length (tl t1)" using pc2 by (rule parseClassChar_shorter)
      moreover have "length t' \<le> length t2"
        using "1.IH"(1)[OF nf n1 n2 pc refl True pc2 refl ok rec] .
      ultimately show ?thesis using l1 by simp
    next
      case False
      with "1.prems" nf n1 n2 pc have
        rec: "parseClassItems neg False ((lo, lo) # acc) t1 = Ok (r, t')"
        by (subst (asm) parseClassItems.simps) (auto split: if_splits outcome.splits)
      have "length t' \<le> length t1"
        using "1.IH"(2)[OF nf n1 n2 pc refl False rec] .
      then show ?thesis using l1 by simp
    qed
  qed
qed

lemma parseClass_shorter:
  "parseClass t = Ok (r, t') \<Longrightarrow> length t' \<le> length t"
proof (cases "t \<noteq> [] \<and> hd t = CHR ''^''")
  case True
  assume "parseClass t = Ok (r, t')"
  with True have "parseClassItems True True [] (tl t) = Ok (r, t')"
    by (simp add: parseClass_def)
  then have "length t' \<le> length (tl t)" by (rule parseClassItems_shorter)
  then show ?thesis by simp
next
  case False
  assume "parseClass t = Ok (r, t')"
  with False have "parseClassItems False True [] t = Ok (r, t')"
    by (auto simp add: parseClass_def)
  then show ?thesis by (rule parseClassItems_shorter)
qed

text \<open>
  The parser of Go keeps a stack of what it has read. Here a frame holds the
  finished alternatives and the items of the concatenation being read (both
  latest first), and the stack holds the frames of the groups that are still
  open.
\<close>

type_synonym frame = "regex list \<times> regex list"

fun mk_concat :: "regex list \<Rightarrow> regex" where
  "mk_concat [] = EmptyMatch"
| "mk_concat [r] = r"
| "mk_concat (r # rs) = Concat r (mk_concat rs)"

fun mk_alternate :: "regex list \<Rightarrow> regex" where
  "mk_alternate [] = EmptyMatch"
| "mk_alternate [r] = r"
| "mk_alternate (r # rs) = Alternate r (mk_alternate rs)"

definition collapse :: "frame \<Rightarrow> regex" where
  "collapse fr = mk_alternate (rev (mk_concat (rev (snd fr)) # fst fr))"

definition push :: "regex \<Rightarrow> frame \<Rightarrow> frame" where
  "push r fr = (fst fr, r # snd fr)"

definition repeat_op :: "char \<Rightarrow> regex \<Rightarrow> regex" where
  "repeat_op c sub =
     (if c = CHR ''*'' then Star sub else if c = CHR ''+'' then Plus sub else Quest sub)"

text \<open>
  Go refuses an expression whose syntax tree is more than 1000 nodes high. A
  group adds at most four nodes to the height, so no expression with at most
  \<open>maxDepth\<close> nested groups is refused for that; deeper ones are left
  unmodelled. (Go also refuses an expression whose program would have more
  than some three million instructions; the lines that \<open>Parse\<close> reads are
  shorter than 64 KiB and their expressions stay far below that.)
\<close>

definition maxDepth :: nat where
  "maxDepth = 200"

text \<open>
  The main loop of \<open>syntax.Parse\<close> under the Perl flags that
  \<open>regexp.Compile\<close> sets. The flag \<open>rep\<close> says that the previous operator was
  a repetition: a second one in a row is an error, except for the \<open>?\<close> that
  makes a repetition non-greedy, which changes the submatch chosen and not
  whether there is a match.
\<close>

function parse_loop ::
  "string \<Rightarrow> frame \<Rightarrow> frame list \<Rightarrow> bool \<Rightarrow> (rx_error, regex) outcome" where
  "parse_loop [] fr stk rep = (if stk = [] then Ok (collapse fr) else Err ErrMissingParen)"
| "parse_loop (c # t) fr stk rep =
     (if c = CHR ''('' then
        (if t \<noteq> [] \<and> hd t = CHR ''?'' then Unmodelled
         else if maxDepth \<le> length stk then Unmodelled
         else parse_loop t ([], []) (fr # stk) False)
      else if c = CHR ''|'' then
        parse_loop t (mk_concat (rev (snd fr)) # fst fr, []) stk False
      else if c = CHR '')'' then
        (case stk of
           [] \<Rightarrow> Err ErrUnexpectedParen
         | up # stk' \<Rightarrow> parse_loop t (push (Capture (collapse fr)) up) stk' False)
      else if c = CHR ''^'' then parse_loop t (push BeginText fr) stk False
      else if c = CHR ''$'' then parse_loop t (push EndText fr) stk False
      else if c = CHR ''.'' then parse_loop t (push AnyCharNotNL fr) stk False
      else if c = CHR ''['' then
        (case parseClass t of
           Err e \<Rightarrow> Err e
         | Unmodelled \<Rightarrow> Unmodelled
         | Ok (cls, t') \<Rightarrow> parse_loop t' (push cls fr) stk False)
      else if c = CHR ''*'' \<or> c = CHR ''+'' \<or> c = CHR ''?'' then
        (if rep then Err ErrInvalidRepeatOp
         else
           (case snd fr of
              [] \<Rightarrow> Err ErrMissingRepeatArgument
            | sub # cur \<Rightarrow>
                parse_loop (if t \<noteq> [] \<and> hd t = CHR ''?'' then tl t else t)
                  (fst fr, repeat_op c sub # cur) stk True))
      else if c = CHR ''{'' then Unmodelled
      else if c = backslash then
        (if t \<noteq> [] \<and> hd t = CHR ''A'' then parse_loop (tl t) (push BeginText fr) stk False
         else if t \<noteq> [] \<and> hd t = CHR ''z'' then parse_loop (tl t) (push EndText fr) stk False
         else if t \<noteq> [] \<and> hd t \<in> set ''bBCQpPdDsSwW'' then Unmodelled
         else
           (case parseEscape t of
              Err e \<Rightarrow> Err e
            | Unmodelled \<Rightarrow> Unmodelled
            | Ok (l, t') \<Rightarrow> parse_loop t' (push (Literal l) fr) stk False))
      else if 128 \<le> code c then Unmodelled
      else parse_loop t (push (Literal c) fr) stk False)"
  by pat_completeness auto
termination
  by (relation "measure (\<lambda>(t, fr, stk, rep). length t)")
     (auto dest: parseClass_shorter parseEscape_shorter simp: less_Suc_eq_le)

declare parse_loop.simps [simp del]

text \<open>
  \<open>regexp.Compile\<close>. Go first checks that the expression is valid UTF-8; an
  expression with a byte above 127 is outside the fragment as a whole.
\<close>

definition regexp_Compile :: "string \<Rightarrow> (rx_error, regex) outcome" where
  "regexp_Compile expr =
     (if list_ex (\<lambda>c. 128 \<le> code c) expr then Unmodelled
      else parse_loop expr ([], []) [] False)"

subsection \<open>Matching\<close>

definition in_ranges :: "char \<Rightarrow> (char \<times> char) list \<Rightarrow> bool" where
  "in_ranges x rs = list_ex (\<lambda>(lo, hi). code lo \<le> code x \<and> code x \<le> code hi) rs"

text \<open>
  The ranges of a class of the fragment are ASCII, so only a rune that is one
  ASCII byte can lie in them.
\<close>

definition rune_in_ranges :: "rune \<Rightarrow> (char \<times> char) list \<Rightarrow> bool" where
  "rune_in_ranges x rs = (case x of [c] \<Rightarrow> code c < 128 \<and> in_ranges c rs | _ \<Rightarrow> False)"

fun weight :: "regex \<Rightarrow> nat" where
  "weight (Capture r) = Suc (weight r)"
| "weight (Concat r1 r2) = Suc (weight r1 + weight r2)"
| "weight (Alternate r1 r2) = Suc (weight r1 + weight r2)"
| "weight (Star r) = Suc (weight r)"
| "weight (Plus r) = Suc (Suc (weight r))"
| "weight (Quest r) = Suc (weight r)"
| "weight _ = 0"

text \<open>
  \<open>rests r beg s\<close> lists what can be left of the runes \<open>s\<close> after \<open>r\<close> has
  matched at their beginning, in the order in which Go's backtracking
  semantics prefers the matches (the first alternative first, the longer
  repetition first). \<open>beg\<close> says that \<open>s\<close> is the whole text, so that \<open>^\<close>
  matches here; \<open>$\<close> matches when nothing is left. \<open>.\<close> matches any rune but
  the newline, and a negated class does match the newline. An iteration of a
  star that consumes nothing leads to no new position and is dropped.
\<close>

function rests :: "regex \<Rightarrow> bool \<Rightarrow> rune list \<Rightarrow> rune list list" where
  "rests EmptyMatch beg s = [s]"
| "rests (Literal c) beg s = (case s of [] \<Rightarrow> [] | x # xs \<Rightarrow> if x = [c] then [xs] else [])"
| "rests AnyCharNotNL beg s =
     (case s of [] \<Rightarrow> [] | x # xs \<Rightarrow> if x \<noteq> [newline] then [xs] else [])"
| "rests (CharClass neg rs) beg s =
     (case s of [] \<Rightarrow> [] | x # xs \<Rightarrow> if rune_in_ranges x rs \<noteq> neg then [xs] else [])"
| "rests BeginText beg s = (if beg then [s] else [])"
| "rests EndText beg s = (if s = [] then [s] else [])"
| "rests (Capture r) beg s = rests r beg s"
| "rests (Concat r1 r2) beg s =
     concat (map (\<lambda>s'. rests r2 (beg \<and> length s' = length s) s') (rests r1 beg s))"
| "rests (Alternate r1 r2) beg s = rests r1 beg s @ rests r2 beg s"
| "rests (Star r) beg s =
     concat (map (\<lambda>s'. rests (Star r) False s')
               (filter (\<lambda>s'. length s' < length s) (rests r beg s))) @ [s]"
| "rests (Plus r) beg s =
     concat (map (\<lambda>s'. rests (Star r) (beg \<and> length s' = length s) s') (rests r beg s))"
| "rests (Quest r) beg s = rests r beg s @ [s]"
  by pat_completeness auto
termination
  by (relation "inv_image (less_than <*lex*> less_than) (\<lambda>(r, beg, s). (weight r, length s))")
     auto

lemmas rests_Star = rests.simps(10)

declare rests.simps(10) [simp del]

text \<open>
  \<open>Regexp.MatchString\<close> reports whether the text contains a match: the
  expression is tried at every rune of the text, from the left, and at its end.
\<close>

fun search :: "regex \<Rightarrow> bool \<Rightarrow> rune list \<Rightarrow> bool" where
  "search r beg [] = (rests r beg [] \<noteq> [])"
| "search r beg (c # cs) = (rests r beg (c # cs) \<noteq> [] \<or> search r False cs)"

definition MatchString :: "regex \<Rightarrow> string \<Rightarrow> bool" where
  "MatchString re s = search re True (runes s)"

subsection \<open>Replacing\<close>

text \<open>
  \<open>Regexp.expand\<close>: in a replacement template \<open>$$\<close> is a dollar sign, \<open>$name\<close>
  and \<open>${name}\<close> refer to a submatch, and a \<open>$\<close> that is followed by no name
  is kept as it is. \<open>$0\<close> is the whole match; the expressions the source replaces
  with have no groups, so any other reference is empty.
\<close>

definition is_word_char :: "char \<Rightarrow> bool" where
  "is_word_char c = (isalnum c \<or> c = CHR ''_'')"

definition extract_ref :: "string \<Rightarrow> (string \<times> string) option" where
  "extract_ref str =
     (if str = [] then None
      else
        let brace = (hd str = CHR ''{'');
            str1 = (if brace then tl str else str);
            name = takeWhile is_word_char str1;
            rest = dropWhile is_word_char str1
        in if name = [] then None
           else if brace then
             (if rest \<noteq> [] \<and> hd rest = CHR ''}'' then Some (name, tl rest) else None)
           else Some (name, rest))"

lemma extract_shorter:
  "extract_ref str = Some (name, rest) \<Longrightarrow> length rest \<le> length str"
proof -
  have d: "length (dropWhile is_word_char xs) \<le> length xs" for xs
    by (rule length_dropWhile_le)
  assume "extract_ref str = Some (name, rest)"
  then show ?thesis
    using d[of str] d[of "tl str"]
    by (auto simp add: extract_ref_def Let_def split: if_splits)
qed

function expand :: "string \<Rightarrow> string \<Rightarrow> string" where
  "expand [] matched = []"
| "expand (c # t) matched =
     (if c \<noteq> CHR ''$'' then c # expand t matched
      else if t \<noteq> [] \<and> hd t = CHR ''$'' then CHR ''$'' # expand (tl t) matched
      else
        (case extract_ref t of
           None \<Rightarrow> CHR ''$'' # expand t matched
         | Some (name, rest) \<Rightarrow>
             (if name = ''0'' then matched else []) @ expand rest matched))"
  by pat_completeness auto
termination
  by (relation "measure (\<lambda>(t, matched). length t)")
     (auto dest: extract_shorter simp: less_Suc_eq_le)

text \<open>
  \<open>Regexp.ReplaceAllString\<close>: the text is scanned from the left, rune by rune;
  where the expression matches, the preferred match is replaced by the
  expanded template and the scan goes on behind it; an empty match directly
  behind another match is not replaced.
\<close>

function replaceAll_loop :: "regex \<Rightarrow> string \<Rightarrow> bool \<Rightarrow> bool \<Rightarrow> rune list \<Rightarrow> string" where
  "replaceAll_loop re repl beg after s =
     (case rests re beg s of
        [] \<Rightarrow> (case s of [] \<Rightarrow> [] | c # cs \<Rightarrow> c @ replaceAll_loop re repl False False cs)
      | s' # _ \<Rightarrow>
          (if length s' < length s
           then expand repl (concat (take (length s - length s') s))
                @ replaceAll_loop re repl False True s'
           else (if after then [] else expand repl []) @
                (case s of [] \<Rightarrow> [] | c # cs \<Rightarrow> c @ replaceAll_loop re repl False False cs)))"
  by pat_completeness auto
termination
  by (relation "measure (\<lambda>(re, repl, beg, after, s). length s)") auto

declare replaceAll_loop.simps [simp del]

definition ReplaceAllString :: "regex \<Rightarrow> string \<Rightarrow> string \<Rightarrow> string" where
  "ReplaceAllString re src repl = replaceAll_loop re repl True False (runes src)"

text \<open>
  \<open>regexp.MustCompile\<close> panics when the expression does not compile. The source
  applies it to eight constant expressions, which all compile (lemma
  \<open>MustCompile_sites\<close> below), so the panic is not reachable; the model puts an
  expression that matches nothing in its place.
\<close>

definition MustCompile :: "string \<Rightarrow> regex" where
  "MustCompile str = (case regexp_Compile str of Ok re \<Rightarrow> re | _ \<Rightarrow> CharClass False [])"

section \<open>Package \<open>pattern\<close>: parsing a gitignore file\<close>

record Pattern =
  Regex :: regex
  Negate :: bool

text \<open>
  \<open>ErrInvalidRegex\<close> is wrapped with the expression, the line number and the
  cause; \<open>ErrScanningFile\<close> wraps the scanner's error.
\<close>

datatype parse_error =
    ErrInvalidRegex string nat rx_error
  | ErrScanningFile

definition magicStar :: string where
  "magicStar = ''#$~''"

text \<open>
  The body of the loop of \<open>Parse\<close> for one line of text: \<open>None\<close> when the line
  yields no pattern (a comment or a blank line), otherwise the negation flag
  and the expression that goes to \<open>regexp.Compile\<close>.
\<close>

definition Parse_line :: "string \<Rightarrow> (bool \<times> string) option" where
  "Parse_line text =
     (let line = TrimRight text [carriage_return] in
      if HasPrefix line ''#'' then None
      else
        let line = Trim line '' '' in
        if line = [] then None
        else
          let negatePattern = HasPrefix line ''!'';
              line = (if negatePattern then drop 1 line else line);
              line = (if MatchString (MustCompile ''^([#!])'') line then drop 1 line else line);
              line = (if MatchString (MustCompile (''([^/+])/.*'' @ [backslash] @ ''*'' @ [backslash] @ ''.'')) line
                         \<and> \<not> HasPrefix line ''/''
                      then ''/'' @ line else line);
              line = ReplaceAllString (MustCompile ([backslash] @ ''.'')) line ([backslash] @ ''.'');
              line = (if HasPrefix line ''/**/'' then drop 1 line else line);
              line = ReplaceAllString
                       (MustCompile (''/'' @ [backslash] @ ''*'' @ [backslash] @ ''*/'')) line ''(/|/.+/)'';
              line = ReplaceAllString
                       (MustCompile ([backslash] @ ''*'' @ [backslash] @ ''*/'')) line
                       (''(|.'' @ magicStar @ ''/)'');
              line = ReplaceAllString
                       (MustCompile (''/'' @ [backslash] @ ''*'' @ [backslash] @ ''*'')) line
                       (''(|/.'' @ magicStar @ '')'');
              line = ReplaceAllString
                       (MustCompile ([backslash, backslash, backslash] @ ''*'')) line
                       ([backslash] @ magicStar);
              line = ReplaceAllString (MustCompile ([backslash] @ ''*'')) line ''([^/]*)'';
              line = strings_ReplaceAll line ''?'' ([backslash] @ ''?'');
              line = strings_ReplaceAll line magicStar ''*'';
              expr = (if HasSuffix line ''/'' then line @ ''(|.*)$'' else line @ ''(|/.*)$'');
              expr = (if HasPrefix expr ''/'' then ''^(|/)'' @ drop 1 expr else ''^(|.*/)'' @ expr)
          in Some (negatePattern, expr))"

text \<open>
  \<open>bufio.Scanner\<close> with its default split function \<open>ScanLines\<close>: the input is
  cut at every newline, a last line without a newline counts when it is not
  empty, and \<open>Text\<close> is the line without one trailing carriage return. A line
  of \<open>maxScanTokenSize\<close> bytes or more does not fit the scanner's buffer: \<open>Scan\<close>
  stops there and \<open>Err\<close> reports it.
\<close>

fun scan_tokens :: "string \<Rightarrow> string \<Rightarrow> string list" where
  "scan_tokens [] cur = (if cur = [] then [] else [rev cur])"
| "scan_tokens (c # cs) cur =
     (if c = newline then rev cur # scan_tokens cs [] else scan_tokens cs (c # cur))"

definition dropCR :: "string \<Rightarrow> string" where
  "dropCR data = (if data \<noteq> [] \<and> last data = carriage_return then butlast data else data)"

definition maxScanTokenSize :: nat where
  "maxScanTokenSize = 64 * 1024"

definition ErrTooLong :: "string \<Rightarrow> bool" where
  "ErrTooLong tok = (maxScanTokenSize \<le> length tok)"

text \<open>
  The loop of \<open>Parse\<close> over the lines of the scanner. Where the model of
  \<open>regexp.Compile\<close> has no answer for the expression of a line, the model of
  \<open>Parse\<close> has none either.
\<close>

fun Parse_loop ::
  "string list \<Rightarrow> nat \<Rightarrow> Pattern list \<Rightarrow> (parse_error, Pattern list) outcome" where
  "Parse_loop [] lineNumber patterns = Ok patterns"
| "Parse_loop (tok # toks) lineNumber patterns =
     (if ErrTooLong tok then Err ErrScanningFile
      else
        (case Parse_line (dropCR tok) of
           None \<Rightarrow> Parse_loop toks (lineNumber + 1) patterns
         | Some (negatePattern, expr) \<Rightarrow>
             (case regexp_Compile expr of
                Err err \<Rightarrow> Err (ErrInvalidRegex expr (lineNumber + 1) err)
              | Unmodelled \<Rightarrow> Unmodelled
              | Ok regex \<Rightarrow>
                  Parse_loop toks (lineNumber + 1)
                    (patterns @ [\<lparr>Regex = regex, Negate = negatePattern\<rparr>]))))"

text \<open>
  For evaluation the length of a token is compared with the limit by dropping
  a binary number of characters, which ends as soon as the token is used up.
\<close>

fun drop_num :: "num \<Rightarrow> 'a list \<Rightarrow> 'a list" where
  "drop_num k [] = []"
| "drop_num num.One (x # xs) = xs"
| "drop_num (num.Bit0 k) (x # xs) = drop_num k (drop_num k (x # xs))"
| "drop_num (num.Bit1 k) (x # xs) = drop_num k (drop_num k xs)"

lemma drop_num_drop: "drop_num k xs = drop (numeral k) xs"
proof (induction k xs rule: drop_num.induct)
  case (3 k x xs)
  have "drop_num (num.Bit0 k) (x # xs) = drop (numeral k) (drop (numeral k) (x # xs))"
    using 3 by (simp only: drop_num.simps)
  also have "\<dots> = drop (numeral k + numeral k) (x # xs)"
    by (simp only: drop_drop)
  finally show ?case by (simp only: numeral_Bit0)
next
  case (4 k x xs)
  have "drop_num (num.Bit1 k) (x # xs) = drop (numeral k) (drop (numeral k) xs)"
    using 4 by (simp only: drop_num.simps)
  also have "\<dots> = drop (numeral k + numeral k) xs"
    by (simp only: drop_drop)
  also have "\<dots> = drop (Suc (numeral k + numeral k)) (x # xs)"
    by (simp only: drop_Suc_Cons)
  finally show ?case by (simp only: numeral_Bit1 Suc_eq_plus1)
qed simp_all

lemma ErrTooLong_code [code]:
  "ErrTooLong tok =
     (drop_num (num.Bit1 (num.Bit1 (num.Bit1 (num.Bit1 (num.Bit1 (num.Bit1 (num.Bit1
        (num.Bit1 (num.Bit1 (num.Bit1 (num.Bit1 (num.Bit1 (num.Bit1 (num.Bit1
        (num.Bit1 num.One))))))))))))))) tok \<noteq> [])"
proof -
  have a: "(drop 65535 tok \<noteq> []) = (65535 < length tok)"
    by (simp add: not_le)
  have b: "(65535 < length tok) = (maxScanTokenSize \<le> length tok)"
    unfolding maxScanTokenSize_def by arith
  show ?thesis
    unfolding ErrTooLong_def drop_num_drop using a b by (simp only:)
qed

definition Parse :: "string \<Rightarrow> (parse_error, Pattern list) outcome" where
  "Parse r = Parse_loop (scan_tokens r []) 0 []"

section \<open>Package \<open>gitignore\<close>\<close>

record File =
  patterns :: "Pattern list"

text \<open>
  The errors of \<open>NewFromLines\<close>: \<open>ErrRegexCompile\<close> wraps an error of \<open>Parse\<close>
  that is an \<open>ErrInvalidRegex\<close>; any other error of \<open>Parse\<close> is passed on.
\<close>

datatype gitignore_error =
    ErrRegexCompile parse_error
  | ErrParse parse_error

fun is_ErrInvalidRegex :: "parse_error \<Rightarrow> bool" where
  "is_ErrInvalidRegex (ErrInvalidRegex expr lineNumber err) = True"
| "is_ErrInvalidRegex ErrScanningFile = False"

text \<open>\<open>xstrings.JoinWithSeparator(sep, lines...)\<close>.\<close>

fun JoinWithSeparator :: "string \<Rightarrow> string list \<Rightarrow> string" where
  "JoinWithSeparator sep [] = []"
| "JoinWithSeparator sep [l] = l"
| "JoinWithSeparator sep (l # ls) = l @ sep @ JoinWithSeparator sep ls"

definition NewFromLines :: "string list \<Rightarrow> (gitignore_error, File) outcome" where
  "NewFromLines lines =
     (case Parse (JoinWithSeparator [newline] lines) of
        Err err \<Rightarrow> (if is_ErrInvalidRegex err then Err (ErrRegexCompile err) else Err (ErrParse err))
      | Unmodelled \<Rightarrow> Unmodelled
      | Ok pats \<Rightarrow> Ok \<lparr>patterns = pats\<rparr>)"

text \<open>
  \<open>os.PathSeparator\<close> is fixed by the platform the package is built for.
\<close>

datatype platform = Unix | Windows

fun PathSeparator :: "platform \<Rightarrow> char" where
  "PathSeparator Unix = CHR ''/''"
| "PathSeparator Windows = backslash"

text \<open>
  The loop of \<open>File.Match\<close>, with the variable \<open>match\<close> as an argument: a
  pattern that matches returns \<open>False\<close> at once when it is negated and sets
  \<open>match\<close> otherwise.
\<close>

fun Match_loop :: "Pattern list \<Rightarrow> string \<Rightarrow> bool \<Rightarrow> bool" where
  "Match_loop [] path match = match"
| "Match_loop (pat # pats) path match =
     (if MatchString (Regex pat) path
      then (if Negate pat then False else Match_loop pats path True)
      else Match_loop pats path match)"

definition Match :: "platform \<Rightarrow> File \<Rightarrow> string \<Rightarrow> bool" where
  "Match os f path =
     Match_loop (patterns f) (strings_ReplaceAll path [PathSeparator os] ''/'') False"

text \<open>
  What \<open>Match\<close> answers for the rules compiled from \<open>lines\<close>; \<open>None\<close> when
  \<open>NewFromLines\<close> does not answer with a rule set.
\<close>

definition matches :: "platform \<Rightarrow> string list \<Rightarrow> string \<Rightarrow> bool option" where
  "matches os lines path =
     (case NewFromLines lines of Ok f \<Rightarrow> Some (Match os f path) | _ \<Rightarrow> None)"

text \<open>
  A line that \<open>Parse\<close> gets past: the scanner delivers it, and it yields no
  pattern or a pattern whose expression compiles.
\<close>

definition line_ok :: "string \<Rightarrow> bool" where
  "line_ok tok =
     (\<not> ErrTooLong tok \<and>
      (case Parse_line (dropCR tok) of
         None \<Rightarrow> True
       | Some (negatePattern, expr) \<Rightarrow>
           (case regexp_Compile expr of Ok regex \<Rightarrow> True | _ \<Rightarrow> False)))"

section \<open>Notions used in the properties\<close>

text \<open>
  \<open>needs c r\<close>: every match of \<open>r\<close> consumes the character \<open>c\<close> somewhere.
\<close>

fun needs :: "char \<Rightarrow> regex \<Rightarrow> bool" where
  "needs c (Literal d) = (c = d)"
| "needs c (Capture r) = needs c r"
| "needs c (Concat r1 r2) = (needs c r1 \<or> needs c r2)"
| "needs c (Alternate r1 r2) = (needs c r1 \<and> needs c r2)"
| "needs c (Plus r) = needs c r"
| "needs c r = False"

text \<open>
  The groups that \<open>Parse\<close> puts around a rule that is not anchored: \<open>(|.*/)\<close> in
  front, and behind it \<open>(|/.*)\<close>, or \<open>(|.*)\<close> when the rule ends in a slash.
\<close>

definition seg_prefix :: regex where
  "seg_prefix = Capture (Alternate EmptyMatch (Concat (Star AnyCharNotNL) (Literal CHR ''/'')))"

definition seg_suffix :: regex where
  "seg_suffix = Capture (Alternate EmptyMatch (Concat (Literal CHR ''/'') (Star AnyCharNotNL)))"

definition seg_below :: regex where
  "seg_below = Capture (Alternate EmptyMatch (Star AnyCharNotNL))"

text \<open>
  A plain rule: a non-empty line of ASCII characters that the scanner
  delivers, without a newline and without the characters
  \<open>\ + * ( ) | [ ] { } ^ $\<close> that gitignore or the regular expression syntax
  read specially, that does not begin with \<open>#\<close>, \<open>!\<close>, a space or \<open>/\<close> and
  does not end with a space or a carriage return. The dot and the question
  mark are allowed: \<open>Parse\<close> escapes them, as \<open>escape_literal\<close> says. A literal
  rule is a plain rule that does not end in a slash, a directory rule is one
  that does.
\<close>

definition literal_char :: "char \<Rightarrow> bool" where
  "literal_char c = (code c < 128 \<and> c \<notin> set (backslash # newline # ''+*()|[]{}^$''))"

definition escape_literal :: "string \<Rightarrow> string" where
  "escape_literal p =
     concat (map (\<lambda>c. if c = CHR ''.'' \<or> c = CHR ''?'' then [backslash, c] else [c]) p)"

definition plain_rule :: "string \<Rightarrow> bool" where
  "plain_rule p =
     (p \<noteq> [] \<and> \<not> ErrTooLong p \<and> list_all literal_char p
      \<and> hd p \<notin> set ''#! /'' \<and> last p \<notin> set (carriage_return # '' ''))"

definition literal_rule :: "string \<Rightarrow> bool" where
  "literal_rule p = (plain_rule p \<and> last p \<noteq> CHR ''/'')"

definition directory_rule :: "string \<Rightarrow> bool" where
  "directory_rule p = (plain_rule p \<and> last p = CHR ''/'')"

text \<open>
  What the properties say of a path \<open>s\<close> and a plain rule \<open>p\<close>: \<open>p\<close> stands in
  \<open>s\<close> behind \<open>pre\<close> and before \<open>post\<close>, where \<open>pre\<close> is empty or ends in a
  slash and neither \<open>pre\<close> nor \<open>post\<close> has a newline.
\<close>

definition stands_in :: "string \<Rightarrow> string \<Rightarrow> string \<Rightarrow> string \<Rightarrow> bool" where
  "stands_in p s pre post =
     (s = pre @ p @ post \<and> (pre = [] \<or> last pre = CHR ''/'')
      \<and> newline \<notin> set pre \<and> newline \<notin> set post)"


section \<open>Properties\<close>

subsection \<open>Runes\<close>

lemma conts_bytes:
  "conts lo hi n cs \<Longrightarrow> 128 \<le> lo \<Longrightarrow> n \<le> length cs \<and> (\<forall>b\<in>set (take n cs). 128 \<le> code b)"
proof (induction n arbitrary: lo hi cs)
  case 0
  then show ?case by simp
next
  case (Suc n)
  then obtain c cs' where cs: "cs = c # cs'" by (cases cs) auto
  with Suc.prems have "lo \<le> code c" "conts 0x80 0xBF n cs'" by simp_all
  with Suc.IH[of "0x80" "0xBF" cs'] Suc.prems(2) cs show ?case by auto
qed

lemma conts_ascii_cut:
  "code a < 128 \<Longrightarrow> 128 \<le> lo \<Longrightarrow> conts lo hi n (cs @ a # ys) = conts lo hi n cs"
proof (induction n arbitrary: lo hi cs)
  case 0
  show ?case by simp
next
  case (Suc n)
  show ?case
  proof (cases cs)
    case Nil
    with Suc.prems show ?thesis by simp
  next
    case (Cons c cs')
    with Suc.IH[OF Suc.prems(1), of "0x80" "0xBF" cs'] show ?thesis by simp
  qed
qed

lemma rune_tail_props:
  "rune_tail c cs \<le> length cs"
  "\<forall>b\<in>set (take (rune_tail c cs) cs). 128 \<le> code b"
proof -
  have "k \<le> length cs \<and> (\<forall>b\<in>set (take k cs). 128 \<le> code b)"
    if "conts lo hi k cs" "128 \<le> lo" for lo hi k
    using that by (rule conts_bytes)
  then show "rune_tail c cs \<le> length cs" "\<forall>b\<in>set (take (rune_tail c cs) cs). 128 \<le> code b"
    unfolding rune_tail_def Let_def by (auto split: if_splits)
qed

lemma rune_tail_ascii: "code c < 128 \<Longrightarrow> rune_tail c cs = 0"
  by (simp add: rune_tail_def)

lemma rune_tail_head: "0 < rune_tail c cs \<Longrightarrow> 128 \<le> code c"
  by (auto simp add: rune_tail_def Let_def split: if_splits)

lemma rune_tail_cut: "code a < 128 \<Longrightarrow> rune_tail c (cs @ a # ys) = rune_tail c cs"
  by (simp add: rune_tail_def Let_def conts_ascii_cut)

lemma concat_runes: "concat (runes s) = s"
  by (induction s rule: runes.induct) simp_all

lemma runes_ascii_Cons: "code c < 128 \<Longrightarrow> runes (c # cs) = [c] # runes cs"
  by (simp add: rune_tail_ascii)

lemma runes_append_ascii:
  "code a < 128 \<Longrightarrow> runes (xs @ a # ys) = runes xs @ [a] # runes ys"
proof (induction xs rule: runes.induct)
  case 1
  then show ?case by (simp add: rune_tail_ascii)
next
  case (2 c cs)
  have k: "rune_tail c (cs @ a # ys) = rune_tail c cs"
    using "2.prems" by (rule rune_tail_cut)
  have le: "rune_tail c cs \<le> length cs" by (rule rune_tail_props)
  show ?case
    using "2.IH"[OF "2.prems"] le by (simp add: k)
qed

lemma runes_chunk_shape:
  "x \<in> set (runes s) \<Longrightarrow> (\<exists>c. x = [c]) \<or> (\<forall>b\<in>set x. 128 \<le> code b)"
proof (induction s rule: runes.induct)
  case 1
  then show ?case by simp
next
  case (2 c cs)
  show ?case
  proof (cases "x = c # take (rune_tail c cs) cs")
    case True
    show ?thesis
    proof (cases "rune_tail c cs = 0")
      case True
      with \<open>x = c # take (rune_tail c cs) cs\<close> show ?thesis by simp
    next
      case False
      then have "128 \<le> code c" by (intro rune_tail_head) simp
      with True rune_tail_props(2)[of c cs] show ?thesis by auto
    qed
  next
    case False
    with 2 show ?thesis by simp
  qed
qed

lemma runes_single_mem: "[c] \<in> set (runes s) \<Longrightarrow> c \<in> set s"
proof -
  assume "[c] \<in> set (runes s)"
  then have "\<exists>x\<in>set (runes s). c \<in> set x"
    by (intro bexI[of _ "[c]"]) simp_all
  then have "c \<in> set (concat (runes s))" by simp
  then show ?thesis by (simp only: concat_runes)
qed

lemma ascii_mem_runes: "code c < 128 \<Longrightarrow> c \<in> set s \<Longrightarrow> [c] \<in> set (runes s)"
proof -
  assume a: "code c < 128" and "c \<in> set s"
  then obtain xs ys where "s = xs @ c # ys" by (meson split_list)
  with a show ?thesis by (simp add: runes_append_ascii)
qed

lemma runes_ascii_append:
  "list_all (\<lambda>c. code c < 128) p \<Longrightarrow> runes (p @ s) = map (\<lambda>c. [c]) p @ runes s"
  by (induction p) (simp_all add: rune_tail_ascii)

lemma runes_all_ascii:
  "list_all (\<lambda>c. code c < 128) p \<Longrightarrow> runes p = map (\<lambda>c. [c]) p"
  using runes_ascii_append[of p "[]"] by simp

lemma runes_Nil_iff: "(runes s = []) = (s = [])"
  by (cases s) simp_all

lemma newline_runes: "([newline] \<in> set (runes s)) = (newline \<in> set s)"
  using ascii_mem_runes[of newline s] runes_single_mem[of newline s]
  by (auto simp add: code_def)

subsection \<open>The platform's separator\<close>

lemma HasPrefix_single: "HasPrefix (c # cs) [a] = (c = a)"
  by (simp add: HasPrefix_def)

lemma strings_ReplaceAll_char:
  "strings_ReplaceAll s [a] [b] = map (\<lambda>c. if c = a then b else c) s"
  by (induction s) (simp_all add: HasPrefix_single)

lemma strings_ReplaceAll_same: "strings_ReplaceAll s [a] [a] = s"
  by (simp add: strings_ReplaceAll_char map_idI)

lemma normalize_without_separator:
  "backslash \<notin> set path \<Longrightarrow> strings_ReplaceAll path [PathSeparator os] ''/'' = path"
  by (cases os) (auto simp add: strings_ReplaceAll_char intro!: map_idI)

lemma matches_platform:
  "backslash \<notin> set path \<Longrightarrow> matches Unix lines path = r \<Longrightarrow> matches os lines path = r"
  by (cases os)
     (simp_all add: matches_def Match_def strings_ReplaceAll_same
        normalize_without_separator[of path Windows, simplified] split: outcome.splits)

subsection \<open>The expressions given to \<open>MustCompile\<close>\<close>

lemma MustCompile_sites:
  "regexp_Compile ''^([#!])'' = Ok (MustCompile ''^([#!])'')"
  "regexp_Compile (''([^/+])/.*'' @ [backslash] @ ''*'' @ [backslash] @ ''.'')
     = Ok (MustCompile (''([^/+])/.*'' @ [backslash] @ ''*'' @ [backslash] @ ''.''))"
  "regexp_Compile ([backslash] @ ''.'') = Ok (MustCompile ([backslash] @ ''.''))"
  "regexp_Compile (''/'' @ [backslash] @ ''*'' @ [backslash] @ ''*/'')
     = Ok (MustCompile (''/'' @ [backslash] @ ''*'' @ [backslash] @ ''*/''))"
  "regexp_Compile ([backslash] @ ''*'' @ [backslash] @ ''*/'')
     = Ok (MustCompile ([backslash] @ ''*'' @ [backslash] @ ''*/''))"
  "regexp_Compile (''/'' @ [backslash] @ ''*'' @ [backslash] @ ''*'')
     = Ok (MustCompile (''/'' @ [backslash] @ ''*'' @ [backslash] @ ''*''))"
  "regexp_Compile ([backslash, backslash, backslash] @ ''*'')
     = Ok (MustCompile ([backslash, backslash, backslash] @ ''*''))"
  "regexp_Compile ([backslash] @ ''*'') = Ok (MustCompile ([backslash] @ ''*''))"
  by code_simp+

subsection \<open>The loops of \<open>Match\<close> and \<open>Parse\<close>\<close>

lemma Match_loop_verdict:
  "Match_loop ps p v =
     ((v \<or> (\<exists>r\<in>set ps. \<not> Negate r \<and> MatchString (Regex r) p))
      \<and> (\<forall>r\<in>set ps. Negate r \<longrightarrow> \<not> MatchString (Regex r) p))"
  by (induction ps arbitrary: v) auto

lemma scan_tokens_line:
  "newline \<notin> set xs \<Longrightarrow> scan_tokens (xs @ ys) cur = scan_tokens ys (rev xs @ cur)"
  by (induction xs arbitrary: cur) auto

lemma scan_tokens_join:
  "\<forall>l\<in>set lines. newline \<notin> set l \<Longrightarrow>
   scan_tokens (JoinWithSeparator [newline] lines) [] =
     (if lines \<noteq> [] \<and> last lines = [] then butlast lines else lines)"
proof (induction lines)
  case Nil
  show ?case by simp
next
  case (Cons l ls)
  then have nl: "newline \<notin> set l" by simp
  show ?case
  proof (cases ls)
    case Nil
    have "scan_tokens (l @ []) [] = scan_tokens [] (rev l @ [])"
      using nl by (rule scan_tokens_line)
    with Nil show ?thesis by simp
  next
    case more: (Cons l' ls')
    have "scan_tokens (l @ newline # JoinWithSeparator [newline] ls) []
        = scan_tokens (newline # JoinWithSeparator [newline] ls) (rev l @ [])"
      using nl by (rule scan_tokens_line)
    with more Cons.IH Cons.prems show ?thesis by simp
  qed
qed

lemma Parse_loop_first_error:
  assumes "\<forall>t\<in>set pre. line_ok t"
    and "\<not> ErrTooLong tok"
    and "Parse_line (dropCR tok) = Some (neg, expr)"
    and "regexp_Compile expr = Err cause"
  shows "Parse_loop (pre @ tok # post) n pats
           = Err (ErrInvalidRegex expr (n + length pre + 1) cause)"
  using assms(1)
proof (induction pre arbitrary: n pats)
  case Nil
  show ?case using assms(2-4) by simp
next
  case (Cons t pre)
  then have ok: "line_ok t" and rest: "\<forall>t\<in>set pre. line_ok t" by simp_all
  show ?case
  proof (cases "Parse_line (dropCR t)")
    case None
    with ok Cons.IH[OF rest, of "n + 1" pats] show ?thesis
      by (simp add: line_ok_def)
  next
    case (Some ne)
    obtain ng e where ne: "ne = (ng, e)" by (cases ne)
    with ok Some obtain re where "regexp_Compile e = Ok re"
      by (auto simp add: line_ok_def split: outcome.splits)
    with ok Some ne Cons.IH[OF rest, of "n + 1"] show ?thesis
      by (simp add: line_ok_def)
  qed
qed

lemma NewFromLines_first_error:
  assumes "lines = pre @ l # post"
    and "\<forall>x\<in>set lines. newline \<notin> set x"
    and "\<forall>x\<in>set pre. line_ok x"
    and "\<not> ErrTooLong l"
    and "Parse_line (dropCR l) = Some (neg, expr)"
    and "regexp_Compile expr = Err cause"
  shows "NewFromLines lines = Err (ErrRegexCompile (ErrInvalidRegex expr (length pre + 1) cause))"
proof -
  have "Parse_line (dropCR []) = None"
    by code_simp
  with assms(5) have l: "l \<noteq> []" by auto
  obtain post' where toks: "scan_tokens (JoinWithSeparator [newline] lines) [] = pre @ l # post'"
  proof (cases "last lines = []")
    case True
    with assms(1) l have "post \<noteq> []" by auto
    then have "butlast lines = pre @ l # butlast post"
      using assms(1) by (simp add: butlast_append)
    with True assms(1,2) that show ?thesis
      by (simp add: scan_tokens_join)
  next
    case False
    with assms(1,2) that show ?thesis by (simp add: scan_tokens_join)
  qed
  have "Parse (JoinWithSeparator [newline] lines)
          = Err (ErrInvalidRegex expr (length pre + 1) cause)"
    unfolding Parse_def toks
    using Parse_loop_first_error[OF assms(3-6), of post' 0 "[]"] by simp
  then show ?thesis by (simp add: NewFromLines_def)
qed

subsection \<open>What a match leaves, and expressions that need a character\<close>

lemma rests_suffix: "s' \<in> set (rests r b s) \<Longrightarrow> \<exists>pre. s = pre @ s'"
proof (induction r b s arbitrary: s' rule: rests.induct)
  case (8 r1 r2 beg s)
  then obtain s1 where s1: "s1 \<in> set (rests r1 beg s)"
    and s': "s' \<in> set (rests r2 (beg \<and> length s1 = length s) s1)"
    by auto
  from "8.IH"(1)[OF s1] obtain p1 where "s = p1 @ s1" by blast
  moreover from "8.IH"(2)[OF s1 s'] obtain p2 where "s1 = p2 @ s'" by blast
  ultimately show ?case by simp
next
  case (10 r beg s)
  show ?case
  proof (cases "s' = s")
    case True
    then show ?thesis by simp
  next
    case False
    with "10.prems" obtain s1 where s1: "s1 \<in> set (rests r beg s)" and lt: "length s1 < length s"
      and s': "s' \<in> set (rests (Star r) False s1)"
      by (subst (asm) rests_Star) auto
    from "10.IH"(1)[OF s1] obtain p1 where "s = p1 @ s1" by blast
    moreover from "10.IH"(2)[of s1 s'] s1 lt s' obtain p2 where "s1 = p2 @ s'" by auto
    ultimately show ?thesis by simp
  qed
next
  case (11 r beg s)
  then obtain s1 where s1: "s1 \<in> set (rests r beg s)"
    and s': "s' \<in> set (rests (Star r) (beg \<and> length s1 = length s) s1)"
    by auto
  from "11.IH"(1)[OF s1] obtain p1 where "s = p1 @ s1" by blast
  moreover from "11.IH"(2)[OF s1 s'] obtain p2 where "s1 = p2 @ s'" by blast
  ultimately show ?case by simp
qed (auto split: list.splits if_splits)

lemma rests_needs: "needs c r \<Longrightarrow> [c] \<notin> set s \<Longrightarrow> rests r b s = []"
proof (induction r arbitrary: b s)
  case (Concat r1 r2)
  have "rests r2 b' s1 = []" if "needs c r2" "s1 \<in> set (rests r1 b s)" for b' s1
  proof -
    from rests_suffix[OF that(2)] Concat.prems(2) have "[c] \<notin> set s1" by auto
    with that(1) show ?thesis by (rule Concat.IH(2))
  qed
  with Concat show ?case by (cases "needs c r1") auto
next
  case (Plus r)
  then show ?case by simp
qed (auto split: list.splits)

lemma search_needs: "needs c r \<Longrightarrow> [c] \<notin> set s \<Longrightarrow> \<not> search r b s"
  by (induction s arbitrary: b) (simp_all add: rests_needs)

lemma replaceAll_needs:
  "needs c r \<Longrightarrow> [c] \<notin> set s \<Longrightarrow> replaceAll_loop r repl b a s = concat s"
proof (induction s arbitrary: b a)
  case Nil
  then show ?case by (subst replaceAll_loop.simps) (simp add: rests_needs)
next
  case (Cons x xs)
  then show ?case by (subst replaceAll_loop.simps) (simp add: rests_needs)
qed

lemma MatchString_needs: "needs c r \<Longrightarrow> c \<notin> set s \<Longrightarrow> \<not> MatchString r s"
  unfolding MatchString_def using runes_single_mem[of c s] by (intro search_needs) auto

lemma ReplaceAllString_needs:
  "needs c re \<Longrightarrow> c \<notin> set s \<Longrightarrow> ReplaceAllString re s repl = s"
  unfolding ReplaceAllString_def
  using runes_single_mem[of c s] replaceAll_needs[of c re "runes s" repl True False]
  by (auto simp add: concat_runes)

subsection \<open>Compiling the expression of a literal rule\<close>

lemma parse_loop_seg_prefix:
  "parse_loop (''^(|.*/)'' @ rest) ([], []) [] False
     = parse_loop rest ([], [seg_prefix, BeginText]) [] False"
  by code_simp

lemma parse_loop_seg_suffix:
  "parse_loop ''(|/.*)$'' (alts, cur) [] False
     = Ok (collapse (alts, EndText # seg_suffix # cur))"
  by code_simp

lemma parse_loop_seg_below:
  "parse_loop ''(|.*)$'' (alts, cur) [] False
     = Ok (collapse (alts, EndText # seg_below # cur))"
  by code_simp

lemma parse_loop_plain:
  assumes "literal_char c" "c \<noteq> CHR ''.''" "c \<noteq> CHR ''?''"
  shows "parse_loop (c # rest) fr stk rep = parse_loop rest (push (Literal c) fr) stk False"
  using assms unfolding literal_char_def
  by (subst parse_loop.simps(2))
     (simp only: set_simps insert_iff empty_iff de_Morgan_disj if_False simp_thms; simp)

lemma parse_loop_escaped:
  "parse_loop (backslash # CHR ''.'' # rest) fr stk rep
     = parse_loop rest (push (Literal CHR ''.'') fr) stk False"
  "parse_loop (backslash # CHR ''?'' # rest) fr stk rep
     = parse_loop rest (push (Literal CHR ''?'') fr) stk False"
  by code_simp+

lemma parse_loop_literal_char:
  assumes "literal_char c"
  shows "parse_loop ((if c = CHR ''.'' \<or> c = CHR ''?'' then [backslash, c] else [c]) @ rest)
           fr stk rep
           = parse_loop rest (push (Literal c) fr) stk False"
proof (cases "c = CHR ''.'' \<or> c = CHR ''?''")
  case True
  then show ?thesis
    using parse_loop_escaped[of rest fr stk rep] by auto
next
  case False
  with assms parse_loop_plain[of c rest fr stk rep] show ?thesis
    by simp
qed

lemma escape_literal_Nil: "escape_literal [] = []"
  by (simp add: escape_literal_def)

lemma escape_literal_Cons:
  "escape_literal (c # p)
     = (if c = CHR ''.'' \<or> c = CHR ''?'' then [backslash, c] else [c]) @ escape_literal p"
  by (simp add: escape_literal_def)

lemma parse_loop_literal:
  "list_all literal_char p \<Longrightarrow> p \<noteq> [] \<Longrightarrow>
   parse_loop (escape_literal p @ rest) fr stk rep
     = parse_loop rest (fst fr, rev (map Literal p) @ snd fr) stk False"
proof (induction p arbitrary: fr rep)
  case Nil
  then show ?case by simp
next
  case (Cons c p)
  then have c: "literal_char c" and p: "list_all literal_char p" by simp_all
  have step: "parse_loop (escape_literal (c # p) @ rest) fr stk rep
        = parse_loop (escape_literal p @ rest) (push (Literal c) fr) stk False"
    unfolding escape_literal_Cons append_assoc
    using c by (rule parse_loop_literal_char)
  show ?case
  proof (cases "p = []")
    case True
    with step show ?thesis by (simp add: escape_literal_Nil push_def)
  next
    case False
    with step Cons.IH[OF p False, of "push (Literal c) fr" False] show ?thesis
      by (simp add: push_def)
  qed
qed

lemma set_escape_literal: "set (escape_literal p) \<subseteq> insert backslash (set p)"
  unfolding escape_literal_def by (induction p) auto

lemma literal_char_ascii: "literal_char c \<Longrightarrow> code c < 128"
  by (simp add: literal_char_def)

lemma ascii_expression:
  assumes "list_all literal_char p" "\<forall>c\<in>set tail. code c < 128"
  shows "\<not> list_ex (\<lambda>c. 128 \<le> code c) (''^(|.*/)'' @ escape_literal p @ tail)"
proof -
  have "code c < 128" if "c \<in> set (escape_literal p)" for c
  proof -
    from that set_escape_literal[of p] have "c = backslash \<or> c \<in> set p" by auto
    moreover have "code backslash < 128" by (simp add: code_def)
    ultimately show ?thesis
      using assms(1) by (auto simp add: list_all_iff dest: literal_char_ascii)
  qed
  moreover have "code c < 128" if "c \<in> set ''^(|.*/)''" for c
    using that by (auto simp add: code_def)
  ultimately show ?thesis
    using assms(2) by (auto simp add: list_ex_iff not_le)
qed

lemma Compile_plain:
  assumes "list_all literal_char p" "p \<noteq> []"
  shows "regexp_Compile (''^(|.*/)'' @ escape_literal p @ ''(|/.*)$'')
           = Ok (mk_concat (BeginText # seg_prefix # map Literal p @ [seg_suffix, EndText]))"
    and "regexp_Compile (''^(|.*/)'' @ escape_literal p @ ''(|.*)$'')
           = Ok (mk_concat (BeginText # seg_prefix # map Literal p @ [seg_below, EndText]))"
proof -
  have front: "regexp_Compile (''^(|.*/)'' @ escape_literal p @ tail)
      = parse_loop tail ([], rev (map Literal p) @ [seg_prefix, BeginText]) [] False"
    if "\<forall>c\<in>set tail. code c < 128" for tail
  proof -
    have "regexp_Compile (''^(|.*/)'' @ escape_literal p @ tail)
            = parse_loop (''^(|.*/)'' @ escape_literal p @ tail) ([], []) [] False"
      using ascii_expression[OF assms(1) that] by (simp only: regexp_Compile_def if_False)
    also have "\<dots> = parse_loop (escape_literal p @ tail) ([], [seg_prefix, BeginText]) [] False"
      by (rule parse_loop_seg_prefix)
    also have "\<dots> = parse_loop tail ([], rev (map Literal p) @ [seg_prefix, BeginText]) [] False"
      using parse_loop_literal[OF assms] by simp
    finally show ?thesis .
  qed
  have c: "collapse ([], EndText # t # rev (map Literal p) @ [seg_prefix, BeginText])
             = mk_concat (BeginText # seg_prefix # map Literal p @ [t, EndText])" for t
    by (simp add: collapse_def)
  have "\<forall>c\<in>set ''(|/.*)$''. code c < 128" by (simp add: code_def)
  from front[OF this] show "regexp_Compile (''^(|.*/)'' @ escape_literal p @ ''(|/.*)$'')
           = Ok (mk_concat (BeginText # seg_prefix # map Literal p @ [seg_suffix, EndText]))"
    by (simp only: parse_loop_seg_suffix c)
  have "\<forall>c\<in>set ''(|.*)$''. code c < 128" by (simp add: code_def)
  from front[OF this] show "regexp_Compile (''^(|.*/)'' @ escape_literal p @ ''(|.*)$'')
           = Ok (mk_concat (BeginText # seg_prefix # map Literal p @ [seg_below, EndText]))"
    by (simp only: parse_loop_seg_below c)
qed

subsection \<open>Matching the expression of a plain rule\<close>

lemma rests_mk_concat_Cons:
  "rs \<noteq> [] \<Longrightarrow>
   rests (mk_concat (r # rs)) b s
     = concat (map (\<lambda>s'. rests (mk_concat rs) (b \<and> length s' = length s) s') (rests r b s))"
  by (cases rs) simp_all

lemma concat_map_nonempty: "(concat (map f xs) \<noteq> []) = (\<exists>x\<in>set xs. f x \<noteq> [])"
  by (induction xs) auto

lemma set_rests_Star_any:
  "set (rests (Star AnyCharNotNL) b s) = {s'. \<exists>pre. s = pre @ s' \<and> [newline] \<notin> set pre}"
proof (induction s arbitrary: b)
  case Nil
  show ?case by (subst rests_Star) auto
next
  case (Cons x xs)
  show ?case
  proof (cases "x = [newline]")
    case True
    have "(\<exists>pre. x # xs = pre @ s' \<and> [newline] \<notin> set pre) = (s' = x # xs)" for s'
      using True by (auto simp add: Cons_eq_append_conv)
    then show ?thesis using True by (subst rests_Star) simp
  next
    case False
    have "(\<exists>pre. x # xs = pre @ s' \<and> [newline] \<notin> set pre)
            = (s' = x # xs \<or> (\<exists>pre. xs = pre @ s' \<and> [newline] \<notin> set pre))" for s'
      using False by (auto simp add: Cons_eq_append_conv)
    then show ?thesis using False Cons.IH[of False] by (subst rests_Star) auto
  qed
qed

lemma set_rests_seg_prefix:
  "set (rests seg_prefix b s)
     = {s} \<union> {s'. \<exists>pre. s = pre @ ''/'' # s' \<and> [newline] \<notin> set pre}"
  by (auto simp add: seg_prefix_def set_rests_Star_any split: list.splits if_splits)

lemma set_rests_seg_suffix:
  "set (rests seg_suffix b s)
     = {s} \<union> {s'. \<exists>mid. s = ''/'' # mid @ s' \<and> [newline] \<notin> set mid}"
  by (auto simp add: seg_suffix_def set_rests_Star_any split: list.splits if_splits)

lemma set_rests_seg_below:
  "set (rests seg_below b s) = {s'. \<exists>mid. s = mid @ s' \<and> [newline] \<notin> set mid}"
  by (auto simp add: seg_below_def set_rests_Star_any)

lemma rests_EndText_last:
  "(rests (mk_concat [t, EndText]) b s \<noteq> []) = ([] \<in> set (rests t b s))"
  by (auto simp add: concat_map_nonempty)

lemma rests_tail_slash:
  "(rests (mk_concat [seg_suffix, EndText]) b s \<noteq> [])
     = (s = [] \<or> (hd s = ''/'' \<and> [newline] \<notin> set (tl s)))"
  unfolding rests_EndText_last set_rests_seg_suffix by (cases s) auto

lemma rests_tail_below:
  "(rests (mk_concat [seg_below, EndText]) b s \<noteq> []) = ([newline] \<notin> set s)"
  unfolding rests_EndText_last set_rests_seg_below by auto

lemma rests_literals:
  "p \<noteq> [] \<Longrightarrow> rs \<noteq> [] \<Longrightarrow>
   rests (mk_concat (map Literal p @ rs)) b s
     = (if take (length p) s = map (\<lambda>c. [c]) p
        then rests (mk_concat rs) False (drop (length p) s) else [])"
proof (induction p arbitrary: b s)
  case Nil
  then show ?case by simp
next
  case (Cons c p)
  show ?case
  proof (cases "p = []")
    case True
    with Cons.prems show ?thesis
      by (cases s) (simp_all add: rests_mk_concat_Cons)
  next
    case False
    with Cons.prems have "map Literal p @ rs \<noteq> []" by simp
    then have "rests (mk_concat (map Literal (c # p) @ rs)) b s
        = concat (map (\<lambda>s'. rests (mk_concat (map Literal p @ rs)) (b \<and> length s' = length s) s')
                    (rests (Literal c) b s))"
      using rests_mk_concat_Cons[of "map Literal p @ rs" "Literal c" b s] by simp
    with Cons.IH[OF False Cons.prems(2)] show ?thesis
      by (cases s) simp_all
  qed
qed

lemma rests_literals_nonempty:
  assumes "p \<noteq> []" "rs \<noteq> []"
  shows "(rests (mk_concat (map Literal p @ rs)) b s \<noteq> [])
     = (take (length p) s = map (\<lambda>c. [c]) p
        \<and> rests (mk_concat rs) False (drop (length p) s) \<noteq> [])"
  by (simp add: rests_literals[OF assms] del: mk_concat.simps)

lemma rests_BeginText_first:
  "rs \<noteq> [] \<Longrightarrow>
   rests (mk_concat (BeginText # rs)) b s = (if b then rests (mk_concat rs) True s else [])"
  by (simp add: rests_mk_concat_Cons)

lemma search_BeginText_later:
  "rs \<noteq> [] \<Longrightarrow> \<not> search (mk_concat (BeginText # rs)) False s"
  by (induction s) (simp_all add: rests_BeginText_first)

lemma search_BeginText:
  "rs \<noteq> [] \<Longrightarrow>
   search (mk_concat (BeginText # rs)) True s = (rests (mk_concat rs) True s \<noteq> [])"
  by (cases s) (simp_all add: rests_BeginText_first search_BeginText_later)

text \<open>On runes: the plain rule stands between the two groups.\<close>

lemma search_plain:
  assumes "p \<noteq> []" "rs \<noteq> []"
    and tail: "\<And>b s. (rests (mk_concat rs) b s \<noteq> []) = tailP s"
  shows "search (mk_concat (BeginText # seg_prefix # map Literal p @ rs)) True s
     = (\<exists>A B. s = A @ map (\<lambda>c. [c]) p @ B \<and> (A = [] \<or> last A = ''/'')
          \<and> [newline] \<notin> set A \<and> tailP B)"
    (is "?L = ?R")
proof -
  have "?L = (rests (mk_concat (seg_prefix # map Literal p @ rs)) True s \<noteq> [])"
    by (rule search_BeginText) simp
  also have "rests (mk_concat (seg_prefix # map Literal p @ rs)) True s
      = concat (map (\<lambda>s'. rests (mk_concat (map Literal p @ rs))
                              (True \<and> length s' = length s) s')
                  (rests seg_prefix True s))"
    by (rule rests_mk_concat_Cons) (use assms(2) in simp)
  also have "(\<dots> \<noteq> []) = (\<exists>s1\<in>set (rests seg_prefix True s).
               take (length p) s1 = map (\<lambda>c. [c]) p \<and> tailP (drop (length p) s1))"
    unfolding concat_map_nonempty
    using rests_literals_nonempty[OF assms(1,2)] tail by simp
  also have "\<dots> = (\<exists>s1. (s1 = s \<or> (\<exists>pre. s = pre @ ''/'' # s1 \<and> [newline] \<notin> set pre))
                     \<and> take (length p) s1 = map (\<lambda>c. [c]) p \<and> tailP (drop (length p) s1))"
    unfolding set_rests_seg_prefix by auto
  also have "\<dots> = ?R"
  proof
    assume "\<exists>s1. (s1 = s \<or> (\<exists>pre. s = pre @ ''/'' # s1 \<and> [newline] \<notin> set pre))
                     \<and> take (length p) s1 = map (\<lambda>c. [c]) p \<and> tailP (drop (length p) s1)"
    then obtain s1 where s1: "s1 = s \<or> (\<exists>pre. s = pre @ ''/'' # s1 \<and> [newline] \<notin> set pre)"
      and tk: "take (length p) s1 = map (\<lambda>c. [c]) p" and tl: "tailP (drop (length p) s1)"
      by blast
    define B where "B = drop (length p) s1"
    from tk have s1eq: "s1 = map (\<lambda>c. [c]) p @ B"
      unfolding B_def by (metis append_take_drop_id)
    from s1 show ?R
    proof
      assume "s1 = s"
      with s1eq tl have "s = [] @ map (\<lambda>c. [c]) p @ B \<and> ([] = [] \<or> last [] = ''/'')
          \<and> [newline] \<notin> set [] \<and> tailP B"
        by (simp add: B_def)
      then show ?R by blast
    next
      assume "\<exists>pre. s = pre @ ''/'' # s1 \<and> [newline] \<notin> set pre"
      then obtain pre where "s = pre @ ''/'' # s1" "[newline] \<notin> set pre" by blast
      with s1eq tl have "s = (pre @ [''/'']) @ map (\<lambda>c. [c]) p @ B
          \<and> (pre @ [''/''] = [] \<or> last (pre @ [''/'']) = ''/'')
          \<and> [newline] \<notin> set (pre @ [''/'']) \<and> tailP B"
        by (simp add: B_def)
      then show ?R by blast
    qed
  next
    assume ?R
    then obtain A B where s: "s = A @ map (\<lambda>c. [c]) p @ B"
      and A: "A = [] \<or> last A = ''/''" and nl: "[newline] \<notin> set A" and B: "tailP B"
      by blast
    have "map (\<lambda>c. [c]) p @ B = s
            \<or> (\<exists>pre. s = pre @ ''/'' # map (\<lambda>c. [c]) p @ B \<and> [newline] \<notin> set pre)"
    proof (cases "A = []")
      case True
      with s show ?thesis by simp
    next
      case False
      with A have "A = butlast A @ [''/'']"
        by (metis append_butlast_last_id)
      with s nl have "s = butlast A @ ''/'' # map (\<lambda>c. [c]) p @ B \<and> [newline] \<notin> set (butlast A)"
        by (metis append_Cons append_Nil append_assoc in_set_butlastD)
      then show ?thesis by blast
    qed
    with B show "\<exists>s1. (s1 = s \<or> (\<exists>pre. s = pre @ ''/'' # s1 \<and> [newline] \<notin> set pre))
                     \<and> take (length p) s1 = map (\<lambda>c. [c]) p \<and> tailP (drop (length p) s1)"
      by (intro exI[of _ "map (\<lambda>c. [c]) p @ B"]) simp
  qed
  finally show ?thesis .
qed

text \<open>From runes back to bytes.\<close>

lemma concat_singles: "concat (map (\<lambda>c. [c]) p) = p"
  by (induction p) simp_all

lemma newline_concat:
  assumes "set X \<subseteq> set (runes s)" "[newline] \<notin> set X"
  shows "newline \<notin> set (concat X)"
proof
  assume "newline \<in> set (concat X)"
  then obtain x where x: "x \<in> set X" "newline \<in> set x" by auto
  with assms(1) have "x \<in> set (runes s)" by auto
  then have "(\<exists>c. x = [c]) \<or> (\<forall>b\<in>set x. 128 \<le> code b)" by (rule runes_chunk_shape)
  then show False
  proof
    assume "\<exists>c. x = [c]"
    with x assms(2) show False by auto
  next
    assume "\<forall>b\<in>set x. 128 \<le> code b"
    with x(2) have "128 \<le> code newline" by blast
    then show False by (simp add: code_def)
  qed
qed

lemma runes_around:
  assumes "list_all (\<lambda>c. code c < 128) p" "p \<noteq> []"
  shows "runes (pre @ p @ post) = runes pre @ map (\<lambda>c. [c]) p @ runes post"
proof -
  from assms obtain c p' where p: "p = c # p'" and c: "code c < 128"
    and p': "list_all (\<lambda>c. code c < 128) p'"
    by (cases p) auto
  have "runes (pre @ c # (p' @ post)) = runes pre @ [c] # runes (p' @ post)"
    using c by (rule runes_append_ascii)
  with p runes_ascii_append[OF p', of post] show ?thesis by simp
qed

lemma runes_slash_last:
  "pre = [] \<or> last pre = CHR ''/'' \<Longrightarrow> runes pre = [] \<or> last (runes pre) = ''/''"
proof (cases "pre = []")
  case True
  then show ?thesis by simp
next
  case False
  assume "pre = [] \<or> last pre = CHR ''/''"
  with False have "pre = butlast pre @ CHR ''/'' # []"
    by (metis append_butlast_last_id)
  moreover have "runes (butlast pre @ CHR ''/'' # []) = runes (butlast pre) @ ''/'' # runes []"
    by (rule runes_append_ascii) (simp add: code_def)
  ultimately have "runes pre = runes (butlast pre) @ [''/'']" by simp
  then show ?thesis by simp
qed

lemma concat_slash_last:
  "A = [] \<or> last A = ''/'' \<Longrightarrow> concat A = [] \<or> last (concat A) = CHR ''/''"
proof (cases "A = []")
  case True
  then show ?thesis by simp
next
  case False
  assume "A = [] \<or> last A = ''/''"
  with False have "A = butlast A @ [''/'']"
    by (metis append_butlast_last_id)
  then have "concat A = concat (butlast A) @ ''/''"
    by (metis concat.simps(1) concat.simps(2) concat_append append_Nil2)
  then show ?thesis by simp
qed

lemma segments_bytes:
  assumes "list_all (\<lambda>c. code c < 128) p" "p \<noteq> []"
  shows "(\<exists>A B. runes s = A @ map (\<lambda>c. [c]) p @ B \<and> (A = [] \<or> last A = ''/'')
            \<and> [newline] \<notin> set A \<and> [newline] \<notin> set B)
         = (\<exists>pre post. stands_in p s pre post)"
    and "(\<exists>A B. runes s = A @ map (\<lambda>c. [c]) p @ B \<and> (A = [] \<or> last A = ''/'')
            \<and> [newline] \<notin> set A \<and> (B = [] \<or> (hd B = ''/'' \<and> [newline] \<notin> set (tl B))))
         = (\<exists>pre post. stands_in p s pre post \<and> (post = [] \<or> hd post = CHR ''/''))"
proof -
  have down: "stands_in p s (concat A) (concat B)"
    if "runes s = A @ map (\<lambda>c. [c]) p @ B" "A = [] \<or> last A = ''/''"
       "[newline] \<notin> set A" "[newline] \<notin> set B" for A B
  proof -
    have "s = concat (runes s)" by (simp only: concat_runes)
    also have "\<dots> = concat A @ p @ concat B"
      by (simp add: that(1) concat_singles)
    finally have s: "s = concat A @ p @ concat B" .
    have sub: "set A \<subseteq> set (runes s)" "set B \<subseteq> set (runes s)"
      by (auto simp add: that(1))
    have "newline \<notin> set (concat A)"
      using sub(1) that(3) by (rule newline_concat)
    moreover have "newline \<notin> set (concat B)"
      using sub(2) that(4) by (rule newline_concat)
    ultimately have "newline \<notin> set (concat A)" "newline \<notin> set (concat B)" .
    with s concat_slash_last[OF that(2)] show ?thesis
      unfolding stands_in_def by blast
  qed
  have up: "runes s = runes pre @ map (\<lambda>c. [c]) p @ runes post
              \<and> (runes pre = [] \<or> last (runes pre) = ''/'')
              \<and> [newline] \<notin> set (runes pre) \<and> [newline] \<notin> set (runes post)"
    if "stands_in p s pre post" for pre post
    using that runes_around[OF assms, of pre post] runes_slash_last[of pre]
    by (simp add: stands_in_def newline_runes)
  show "(\<exists>A B. runes s = A @ map (\<lambda>c. [c]) p @ B \<and> (A = [] \<or> last A = ''/'')
            \<and> [newline] \<notin> set A \<and> [newline] \<notin> set B)
         = (\<exists>pre post. stands_in p s pre post)"
    using down up by blast
  show "(\<exists>A B. runes s = A @ map (\<lambda>c. [c]) p @ B \<and> (A = [] \<or> last A = ''/'')
            \<and> [newline] \<notin> set A \<and> (B = [] \<or> (hd B = ''/'' \<and> [newline] \<notin> set (tl B))))
         = (\<exists>pre post. stands_in p s pre post \<and> (post = [] \<or> hd post = CHR ''/''))"
  proof
    assume "\<exists>A B. runes s = A @ map (\<lambda>c. [c]) p @ B \<and> (A = [] \<or> last A = ''/'')
            \<and> [newline] \<notin> set A \<and> (B = [] \<or> (hd B = ''/'' \<and> [newline] \<notin> set (tl B)))"
    then obtain A B where ab: "runes s = A @ map (\<lambda>c. [c]) p @ B" "A = [] \<or> last A = ''/''"
      "[newline] \<notin> set A" and B: "B = [] \<or> (hd B = ''/'' \<and> [newline] \<notin> set (tl B))"
      by blast
    from B have nlB: "[newline] \<notin> set B" by (cases B) auto
    from B have "concat B = [] \<or> hd (concat B) = CHR ''/''" by (cases B) auto
    with down[OF ab nlB]
    show "\<exists>pre post. stands_in p s pre post \<and> (post = [] \<or> hd post = CHR ''/'')"
      by blast
  next
    assume "\<exists>pre post. stands_in p s pre post \<and> (post = [] \<or> hd post = CHR ''/'')"
    then obtain pre post where st: "stands_in p s pre post"
      and post: "post = [] \<or> hd post = CHR ''/''"
      by blast
    have "runes post = [] \<or> (hd (runes post) = ''/'' \<and> [newline] \<notin> set (tl (runes post)))"
    proof (cases post)
      case Nil
      then show ?thesis by simp
    next
      case (Cons c t)
      with post have c: "c = CHR ''/''" by simp
      have "runes (CHR ''/'' # t) = ''/'' # runes t"
        by (rule runes_ascii_Cons) (simp add: code_def)
      with c Cons have "runes post = ''/'' # runes t"
        by (simp only:)
      moreover from st Cons have "newline \<notin> set t" by (simp add: stands_in_def)
      ultimately show ?thesis by (simp add: newline_runes)
    qed
    with up[OF st]
    show "\<exists>A B. runes s = A @ map (\<lambda>c. [c]) p @ B \<and> (A = [] \<or> last A = ''/'')
            \<and> [newline] \<notin> set A \<and> (B = [] \<or> (hd B = ''/'' \<and> [newline] \<notin> set (tl B)))"
      by blast
  qed
qed

lemma MatchString_literal:
  assumes "list_all (\<lambda>c. code c < 128) p" "p \<noteq> []"
  shows "MatchString (mk_concat (BeginText # seg_prefix # map Literal p @ [seg_suffix, EndText])) s
     = (\<exists>pre post. stands_in p s pre post \<and> (post = [] \<or> hd post = CHR ''/''))"
  unfolding MatchString_def
  using search_plain[OF assms(2), of "[seg_suffix, EndText]"
      "\<lambda>B. B = [] \<or> (hd B = ''/'' \<and> [newline] \<notin> set (tl B))" "runes s"]
    rests_tail_slash segments_bytes(2)[OF assms, of s]
  by (simp del: mk_concat.simps)

lemma MatchString_directory:
  assumes "list_all (\<lambda>c. code c < 128) p" "p \<noteq> []"
  shows "MatchString (mk_concat (BeginText # seg_prefix # map Literal p @ [seg_below, EndText])) s
     = (\<exists>pre post. stands_in p s pre post)"
  unfolding MatchString_def
  using search_plain[OF assms(2), of "[seg_below, EndText]" "\<lambda>B. [newline] \<notin> set B" "runes s"]
    rests_tail_below segments_bytes(1)[OF assms, of s]
  by (simp del: mk_concat.simps)

subsection \<open>\<open>Parse\<close> on a plain rule\<close>

lemma TrimRight_id: "p \<noteq> [] \<Longrightarrow> last p \<notin> set cutset \<Longrightarrow> TrimRight p cutset = p"
  by (cases p rule: rev_cases) (simp_all add: TrimRight_def)

lemma Trim_id:
  "p \<noteq> [] \<Longrightarrow> hd p \<notin> set cutset \<Longrightarrow> last p \<notin> set cutset \<Longrightarrow> Trim p cutset = p"
  by (cases p) (simp_all add: Trim_def TrimRight_id)

lemma HasPrefix_char: "HasPrefix s [a] = (s \<noteq> [] \<and> hd s = a)"
  by (cases s) (simp_all add: HasPrefix_def)

lemma HasPrefix_set: "HasPrefix s pre \<Longrightarrow> set pre \<subseteq> set s"
  unfolding HasPrefix_def by (metis set_take_subset)

lemma HasSuffix_char: "HasSuffix s [a] = (s \<noteq> [] \<and> last s = a)"
proof (cases "s = []")
  case True
  then show ?thesis by (simp add: HasSuffix_def)
next
  case False
  then have "drop (length s - 1) s = [last s]"
    by (metis append_butlast_last_id append_eq_conv_conj length_butlast)
  with False show ?thesis by (auto simp add: HasSuffix_def Suc_le_eq)
qed

lemma strings_ReplaceAll_single:
  "strings_ReplaceAll s [a] new = concat (map (\<lambda>c. if c = a then new else [c]) s)"
  by (induction s) (simp_all add: HasPrefix_single)

lemma strings_ReplaceAll_absent:
  "c \<in> set old \<Longrightarrow> c \<notin> set s \<Longrightarrow> strings_ReplaceAll s old new = s"
proof (induction s)
  case Nil
  show ?case by simp
next
  case (Cons x xs)
  from Cons.prems have "\<not> HasPrefix (x # xs) old"
    using HasPrefix_set by blast
  with Cons show ?case by simp
qed

lemma replaceAll_Literal:
  "replaceAll_loop (Literal d) repl b a s
     = concat (map (\<lambda>x. if x = [d] then expand repl [d] else x) s)"
proof (induction s arbitrary: b a)
  case Nil
  show ?case by (subst replaceAll_loop.simps) simp
next
  case (Cons x xs)
  show ?case by (subst replaceAll_loop.simps) (simp add: Cons.IH)
qed

lemma in_ranges_single: "in_ranges x [(a, a)] = (x = a)"
  by (auto simp add: in_ranges_def code_def)

lemma in_ranges_Cons: "in_ranges x (r # rs) = (in_ranges x [r] \<or> in_ranges x rs)"
  by (simp add: in_ranges_def)

lemma MustCompile_marker:
  "MustCompile ''^([#!])''
     = mk_concat [BeginText, Capture (CharClass False [(CHR ''#'', CHR ''#''), (CHR ''!'', CHR ''!'')])]"
  by code_simp

lemma rune_in_ranges_single: "rune_in_ranges [x] rs = (code x < 128 \<and> in_ranges x rs)"
  by (simp add: rune_in_ranges_def)

lemma MatchString_marker:
  assumes "list_all (\<lambda>c. code c < 128) s"
  shows "MatchString (MustCompile ''^([#!])'') s
           = (s \<noteq> [] \<and> (hd s = CHR ''#'' \<or> hd s = CHR ''!''))"
proof -
  have "MatchString (MustCompile ''^([#!])'') s
          = (rests (mk_concat [Capture (CharClass False [(CHR ''#'', CHR ''#''), (CHR ''!'', CHR ''!'')])])
               True (map (\<lambda>c. [c]) s) \<noteq> [])"
    unfolding MustCompile_marker MatchString_def runes_all_ascii[OF assms]
    by (rule search_BeginText) simp
  also have "\<dots> = (s \<noteq> [] \<and> (hd s = CHR ''#'' \<or> hd s = CHR ''!''))"
    using assms
    by (cases s)
       (auto simp add: rune_in_ranges_single in_ranges_Cons[of _ "(CHR ''#'', CHR ''#'')"]
          in_ranges_single)
  finally show ?thesis .
qed

lemma needs_star:
  "needs CHR ''*'' (MustCompile (''([^/+])/.*'' @ [backslash] @ ''*'' @ [backslash] @ ''.''))"
  "needs CHR ''*'' (MustCompile (''/'' @ [backslash] @ ''*'' @ [backslash] @ ''*/''))"
  "needs CHR ''*'' (MustCompile ([backslash] @ ''*'' @ [backslash] @ ''*/''))"
  "needs CHR ''*'' (MustCompile (''/'' @ [backslash] @ ''*'' @ [backslash] @ ''*''))"
  "needs CHR ''*'' (MustCompile ([backslash, backslash, backslash] @ ''*''))"
  "needs CHR ''*'' (MustCompile ([backslash] @ ''*''))"
  by code_simp+

lemma MustCompile_dot: "MustCompile ([backslash] @ ''.'') = Literal CHR ''.''"
  by code_simp

lemma ReplaceAllString_dot:
  assumes "list_all (\<lambda>c. code c < 128) s"
  shows "ReplaceAllString (MustCompile ([backslash] @ ''.'')) s ([backslash] @ ''.'')
     = concat (map (\<lambda>c. if c = CHR ''.'' then [backslash, CHR ''.''] else [c]) s)"
proof -
  have e: "expand ([backslash] @ ''.'') m = [backslash, CHR ''.'']" for m
    by simp
  have "ReplaceAllString (MustCompile ([backslash] @ ''.'')) s ([backslash] @ ''.'')
          = concat (map (\<lambda>x. if x = ''.'' then [backslash, CHR ''.''] else x) (map (\<lambda>c. [c]) s))"
    unfolding MustCompile_dot ReplaceAllString_def replaceAll_Literal runes_all_ascii[OF assms] e ..
  also have "\<dots> = concat (map (\<lambda>c. if c = CHR ''.'' then [backslash, CHR ''.''] else [c]) s)"
    by (simp add: comp_def if_distrib cong: if_cong)
  finally show ?thesis .
qed

lemma concat_map_concat_map:
  "concat (map f (concat (map g xs))) = concat (map (\<lambda>x. concat (map f (g x))) xs)"
  by (induction xs) simp_all

lemma escape_literal_two_steps:
  "concat (map (\<lambda>c. if c = CHR ''?'' then [backslash] @ ''?'' else [c])
     (concat (map (\<lambda>c. if c = CHR ''.'' then [backslash, CHR ''.''] else [c]) p)))
   = escape_literal p"
  unfolding concat_map_concat_map escape_literal_def
  by (intro arg_cong[where f = concat] map_cong refl) auto

lemma set_escape_dot:
  "set (concat (map (\<lambda>c. if c = CHR ''.'' then [backslash, CHR ''.''] else [c]) p))
     \<subseteq> insert backslash (set p)"
  by (induction p) auto

lemma escape_literal_nonempty: "p \<noteq> [] \<Longrightarrow> escape_literal p \<noteq> []"
  by (cases p) (simp_all add: escape_literal_def)

lemma last_escape_literal: "p \<noteq> [] \<Longrightarrow> last (escape_literal p) = last p"
proof (induction p)
  case Nil
  then show ?case by simp
next
  case (Cons c p)
  show ?case
  proof (cases "p = []")
    case True
    then show ?thesis by (simp add: escape_literal_Cons escape_literal_Nil)
  next
    case False
    then have "escape_literal p \<noteq> []" by (rule escape_literal_nonempty)
    then have "last (escape_literal (c # p)) = last (escape_literal p)"
      unfolding escape_literal_Cons by (rule last_appendR)
    with False Cons.IH show ?thesis by simp
  qed
qed

lemma hd_escape_literal:
  "p \<noteq> [] \<Longrightarrow> hd (escape_literal p) = (if hd p = CHR ''.'' \<or> hd p = CHR ''?'' then backslash else hd p)"
  by (cases p) (simp_all add: escape_literal_def)

lemma literal_char_not_special:
  "literal_char c \<Longrightarrow> c \<noteq> CHR ''*'' \<and> c \<noteq> CHR ''$'' \<and> c \<noteq> newline \<and> c \<noteq> backslash"
  by (simp add: literal_char_def)

lemma Parse_line_plain:
  assumes "plain_rule p"
  shows "Parse_line p
           = Some (False, ''^(|.*/)'' @ escape_literal p
                            @ (if last p = CHR ''/'' then ''(|.*)$'' else ''(|/.*)$''))"
proof -
  from assms have ne: "p \<noteq> []" and chars: "list_all literal_char p"
    and first: "hd p \<noteq> CHR ''#''" "hd p \<noteq> CHR ''!''" "hd p \<noteq> CHR '' ''" "hd p \<noteq> CHR ''/''"
    and final: "last p \<noteq> carriage_return" "last p \<noteq> CHR '' ''"
    by (simp_all add: plain_rule_def)
  let ?d = "concat (map (\<lambda>c. if c = CHR ''.'' then [backslash, CHR ''.''] else [c]) p)"
  from chars have ascii: "list_all (\<lambda>c. code c < 128) p"
    by (auto simp add: list_all_iff dest: literal_char_ascii)
  from chars have nostar: "CHR ''*'' \<notin> set p" and nodollar: "CHR ''$'' \<notin> set p"
    by (auto simp add: list_all_iff dest: literal_char_not_special)
  have dstar: "CHR ''*'' \<notin> set ?d"
    using nostar set_escape_dot[of p] by auto
  have edollar: "CHR ''$'' \<notin> set (escape_literal p)"
    using nodollar set_escape_literal[of p] by auto
  have s1: "TrimRight p [carriage_return] = p"
    using ne final(1) by (simp add: TrimRight_id)
  have s2: "HasPrefix p ''#'' = False" "HasPrefix p ''!'' = False"
    using first by (simp_all add: HasPrefix_char)
  have s3: "Trim p '' '' = p"
    using ne first(3) final(2) by (simp add: Trim_id)
  have s4: "MatchString (MustCompile ''^([#!])'') p = False"
    using first by (simp add: MatchString_marker[OF ascii])
  have s5: "MatchString (MustCompile (''([^/+])/.*'' @ [backslash] @ ''*'' @ [backslash] @ ''.'')) p
              = False"
    using MatchString_needs[OF needs_star(1) nostar] by simp
  have s6: "ReplaceAllString (MustCompile ([backslash] @ ''.'')) p ([backslash] @ ''.'') = ?d"
    using ascii by (rule ReplaceAllString_dot)
  have s7: "HasPrefix ?d ''/**/'' = False"
    using HasPrefix_set[of ?d "''/**/''"] dstar by auto
  have s8: "ReplaceAllString (MustCompile (''/'' @ [backslash] @ ''*'' @ [backslash] @ ''*/'')) ?d r = ?d"
       "ReplaceAllString (MustCompile ([backslash] @ ''*'' @ [backslash] @ ''*/'')) ?d r = ?d"
       "ReplaceAllString (MustCompile (''/'' @ [backslash] @ ''*'' @ [backslash] @ ''*'')) ?d r = ?d"
       "ReplaceAllString (MustCompile ([backslash, backslash, backslash] @ ''*'')) ?d r = ?d"
       "ReplaceAllString (MustCompile ([backslash] @ ''*'')) ?d r = ?d" for r
    by (rule ReplaceAllString_needs[OF needs_star(2) dstar]
             ReplaceAllString_needs[OF needs_star(3) dstar]
             ReplaceAllString_needs[OF needs_star(4) dstar]
             ReplaceAllString_needs[OF needs_star(5) dstar]
             ReplaceAllString_needs[OF needs_star(6) dstar])+
  have s9: "strings_ReplaceAll ?d ''?'' ([backslash] @ ''?'') = escape_literal p"
    unfolding strings_ReplaceAll_single by (rule escape_literal_two_steps)
  have s10: "strings_ReplaceAll (escape_literal p) magicStar ''*'' = escape_literal p"
    using edollar by (intro strings_ReplaceAll_absent[of "CHR ''$''"]) (simp_all add: magicStar_def)
  have s11: "HasSuffix (escape_literal p) ''/'' = (last p = CHR ''/'')"
    using ne by (simp add: HasSuffix_char last_escape_literal escape_literal_nonempty)
  have s12: "HasPrefix (escape_literal p @ t) ''/'' = False" for t
    using ne first(4) by (simp add: HasPrefix_char hd_escape_literal escape_literal_nonempty)
  show ?thesis
  proof (cases "last p = CHR ''/''")
    case True
    show ?thesis
      unfolding Parse_line_def Let_def
      by (simp only: s1 s2 s3 s4 s5 s6 s7 s8 s9 s10 s11 s12 ne True if_False if_True simp_thms)
  next
    case False
    show ?thesis
      unfolding Parse_line_def Let_def
      by (simp only: s1 s2 s3 s4 s5 s6 s7 s8 s9 s10 s11 s12 ne False if_False if_True simp_thms)
  qed
qed

lemma dropCR_id: "last p \<noteq> carriage_return \<Longrightarrow> dropCR p = p"
  by (simp add: dropCR_def)

lemma plain_rule_no_newline: "plain_rule p \<Longrightarrow> newline \<notin> set p"
  by (auto simp add: plain_rule_def list_all_iff dest: literal_char_not_special)

lemma NewFromLines_plain:
  assumes "plain_rule p"
  shows "NewFromLines [p]
    = Ok \<lparr>patterns = [\<lparr>Regex = mk_concat (BeginText # seg_prefix # map Literal p
                                  @ [if last p = CHR ''/'' then seg_below else seg_suffix, EndText]),
                         Negate = False\<rparr>]\<rparr>"
proof -
  from assms have ne: "p \<noteq> []" and short: "\<not> ErrTooLong p" and chars: "list_all literal_char p"
    and cr: "last p \<noteq> carriage_return"
    by (simp_all add: plain_rule_def)
  have toks: "scan_tokens (JoinWithSeparator [newline] [p]) [] = [p]"
    using scan_tokens_join[of "[p]"] plain_rule_no_newline[OF assms] ne by simp
  have "Parse (JoinWithSeparator [newline] [p])
          = Ok [\<lparr>Regex = mk_concat (BeginText # seg_prefix # map Literal p
                            @ [if last p = CHR ''/'' then seg_below else seg_suffix, EndText]),
                  Negate = False\<rparr>]"
    unfolding Parse_def toks
    using short Parse_line_plain[OF assms] Compile_plain[OF chars ne]
    by (simp add: dropCR_id[OF cr] del: mk_concat.simps)
  then show ?thesis by (simp add: NewFromLines_def del: mk_concat.simps)
qed

lemma matches_literal:
  assumes "literal_rule p"
  shows "matches os [p] path
    = Some (\<exists>pre post.
              stands_in p (map (\<lambda>c. if c = PathSeparator os then CHR ''/'' else c) path) pre post
              \<and> (post = [] \<or> hd post = CHR ''/''))"
proof -
  from assms have pl: "plain_rule p" and l: "last p \<noteq> CHR ''/''"
    by (simp_all add: literal_rule_def)
  then have ne: "p \<noteq> []" and ascii: "list_all (\<lambda>c. code c < 128) p"
    by (auto simp add: plain_rule_def list_all_iff dest: literal_char_ascii)
  show ?thesis
    unfolding matches_def NewFromLines_plain[OF pl]
    using l by (simp add: Match_def strings_ReplaceAll_char MatchString_literal[OF ascii ne]
          del: mk_concat.simps)
qed

lemma matches_directory:
  assumes "directory_rule p"
  shows "matches os [p] path
    = Some (\<exists>pre post.
              stands_in p (map (\<lambda>c. if c = PathSeparator os then CHR ''/'' else c) path) pre post)"
proof -
  from assms have pl: "plain_rule p" and l: "last p = CHR ''/''"
    by (simp_all add: directory_rule_def)
  then have ne: "p \<noteq> []" and ascii: "list_all (\<lambda>c. code c < 128) p"
    by (auto simp add: plain_rule_def list_all_iff dest: literal_char_ascii)
  show ?thesis
    unfolding matches_def NewFromLines_plain[OF pl]
    using l by (simp add: Match_def strings_ReplaceAll_char MatchString_directory[OF ascii ne]
          del: mk_concat.simps)
qed

subsection \<open>A star between two literal texts\<close>











subsection \<open>Paths in which a rule stands\<close>

lemma normalize_keeps:
  "backslash \<notin> set p \<Longrightarrow> map (\<lambda>c. if c = PathSeparator os then CHR ''/'' else c) p = p"
  by (cases os) (auto intro!: map_idI)

lemma normalize_newline:
  "newline \<notin> set s \<Longrightarrow> newline \<notin> set (map (\<lambda>c. if c = PathSeparator os then CHR ''/'' else c) s)"
  by (cases os) auto

lemma plain_rule_no_backslash: "plain_rule p \<Longrightarrow> backslash \<notin> set p"
  by (auto simp add: plain_rule_def list_all_iff dest: literal_char_not_special)

lemma stands_in_length: "stands_in p s pre post \<Longrightarrow> length p \<le> length s"
  by (simp add: stands_in_def)

lemma matches_literal_itself:
  assumes "literal_rule p"
  shows "matches os [p] p = Some True"
proof -
  from assms have "backslash \<notin> set p"
    by (simp add: literal_rule_def plain_rule_no_backslash)
  then have "stands_in p (map (\<lambda>c. if c = PathSeparator os then CHR ''/'' else c) p) [] []"
    by (simp add: normalize_keeps stands_in_def)
  then show ?thesis
    unfolding matches_literal[OF assms] by (intro arg_cong[of _ True Some]) auto
qed

lemma matches_literal_below:
  assumes "literal_rule p" "newline \<notin> set rest"
  shows "matches os [p] (p @ ''/'' @ rest) = Some True"
proof -
  let ?n = "map (\<lambda>c. if c = PathSeparator os then CHR ''/'' else c)"
  from assms have "backslash \<notin> set p"
    by (simp add: literal_rule_def plain_rule_no_backslash)
  then have "?n (p @ ''/'' @ rest) = p @ ''/'' @ ?n rest"
    by (simp add: normalize_keeps)
  then have "stands_in p (?n (p @ ''/'' @ rest)) [] (''/'' @ ?n rest)
             \<and> (''/'' @ ?n rest = [] \<or> hd (''/'' @ ?n rest) = CHR ''/'')"
    using normalize_newline[OF assms(2), of os] by (simp add: stands_in_def)
  then have "\<exists>pre post. stands_in p (?n (p @ ''/'' @ rest)) pre post
               \<and> (post = [] \<or> hd post = CHR ''/'')"
    by blast
  then show ?thesis
    unfolding matches_literal[OF assms(1)] by simp
qed

lemma matches_literal_inside:
  assumes "literal_rule p" "newline \<notin> set dir"
  shows "matches os [p] (dir @ ''/'' @ p) = Some True"
proof -
  let ?n = "map (\<lambda>c. if c = PathSeparator os then CHR ''/'' else c)"
  from assms have "backslash \<notin> set p"
    by (simp add: literal_rule_def plain_rule_no_backslash)
  then have "?n (dir @ ''/'' @ p) = (?n dir @ ''/'') @ p @ []"
    by (simp add: normalize_keeps)
  then have "stands_in p (?n (dir @ ''/'' @ p)) (?n dir @ ''/'') [] \<and> ([] = [] \<or> hd [] = CHR ''/'')"
    using normalize_newline[OF assms(2), of os] by (simp add: stands_in_def)
  then have "\<exists>pre post. stands_in p (?n (dir @ ''/'' @ p)) pre post
               \<and> (post = [] \<or> hd post = CHR ''/'')"
    by blast
  then show ?thesis
    unfolding matches_literal[OF assms(1)] by simp
qed

lemma matches_directory_below:
  assumes "directory_rule p" "newline \<notin> set rest"
  shows "matches os [p] (p @ rest) = Some True"
proof -
  let ?n = "map (\<lambda>c. if c = PathSeparator os then CHR ''/'' else c)"
  from assms have "backslash \<notin> set p"
    by (simp add: directory_rule_def plain_rule_no_backslash)
  then have "?n (p @ rest) = p @ ?n rest"
    by (simp add: normalize_keeps)
  then have "stands_in p (?n (p @ rest)) [] (?n rest)"
    using normalize_newline[OF assms(2), of os] by (simp add: stands_in_def)
  then have "\<exists>pre post. stands_in p (?n (p @ rest)) pre post"
    by blast
  then show ?thesis
    unfolding matches_directory[OF assms(1)] by simp
qed

lemma matches_directory_bare:
  assumes "directory_rule p"
  shows "matches os [p] (butlast p) = Some False"
proof -
  let ?n = "map (\<lambda>c. if c = PathSeparator os then CHR ''/'' else c)"
  from assms have "p \<noteq> []" by (simp add: directory_rule_def plain_rule_def)
  then have "length (?n (butlast p)) < length p" by simp
  then have "\<not> (\<exists>pre post. stands_in p (?n (butlast p)) pre post)"
    using stands_in_length[of p "?n (butlast p)"] by fastforce
  then show ?thesis
    unfolding matches_directory[OF assms] by simp
qed

subsection \<open>Rule sets of the specification\<close>

text \<open>
  C1, against the claim as it is stated. The expression of a rule begins with
  the group \<open>(|.*/)\<close>, so the rule \<open>foo\<close> also matches the path \<open>bar/foo\<close>,
  which is neither \<open>foo\<close> nor begins with \<open>foo/\<close>.
\<close>

theorem C1_nested_path_matches:
  "matches Unix [''foo''] ''bar/foo'' = Some True
   \<and> ''bar/foo'' \<noteq> ''foo''
   \<and> \<not> HasPrefix ''bar/foo'' (''foo'' @ ''/'')"
proof -
  have "matches Unix [''foo''] ''bar/foo'' = Some True" by code_simp
  moreover have "\<not> HasPrefix ''bar/foo'' (''foo'' @ ''/'')" by code_simp
  ultimately show ?thesis by simp
qed

text \<open>
  C1, as the source has it. Let \<open>p\<close> be a literal rule: ASCII characters none
  of which is special in a rule or in an expression, not beginning with \<open>#\<close>,
  \<open>!\<close>, a space or \<open>/\<close>, not ending in \<open>/\<close>, a space or a carriage return. For
  the rule set compiled from \<open>p\<close> alone, \<open>Match\<close> answers true exactly for the
  paths in which, after the separators are normalized, \<open>p\<close> stands as whole
  path segments: at the beginning of the path or after a \<open>/\<close>, and at the end
  of the path or before a \<open>/\<close>, where what precedes and what follows contains
  no newline. In particular it answers true for \<open>p\<close> itself, for \<open>p/rest\<close> and
  for \<open>dir/p\<close>. The rule \<open>foo\<close> matches \<open>foo\<close>, \<open>foo/bar\<close> and \<open>bar/foo\<close> and
  does not match \<open>foobar\<close> or \<open>barfoo\<close>.
\<close>

theorem C1_literal_rule:
  "(literal_rule p \<longrightarrow>
      matches os [p] path
        = Some (\<exists>pre post.
                  stands_in p (map (\<lambda>c. if c = PathSeparator os then CHR ''/'' else c) path) pre post
                  \<and> (post = [] \<or> hd post = CHR ''/'')))
   \<and> (literal_rule p \<longrightarrow> matches os [p] p = Some True)
   \<and> (literal_rule p \<and> newline \<notin> set rest \<longrightarrow> matches os [p] (p @ ''/'' @ rest) = Some True)
   \<and> (literal_rule p \<and> newline \<notin> set dir \<longrightarrow> matches os [p] (dir @ ''/'' @ p) = Some True)
   \<and> matches os [''foo''] ''foo'' = Some True
   \<and> matches os [''foo''] ''foo/bar'' = Some True
   \<and> matches os [''foo''] ''bar/foo'' = Some True
   \<and> matches os [''foo''] ''foobar'' = Some False
   \<and> matches os [''foo''] ''barfoo'' = Some False"
proof -
  have "matches Unix [''foo''] ''foo'' = Some True" by code_simp
  moreover have "matches Unix [''foo''] ''foo/bar'' = Some True" by code_simp
  moreover have "matches Unix [''foo''] ''bar/foo'' = Some True" by code_simp
  moreover have "matches Unix [''foo''] ''foobar'' = Some False" by code_simp
  moreover have "matches Unix [''foo''] ''barfoo'' = Some False" by code_simp
  ultimately have
    "matches os [''foo''] ''foo'' = Some True
     \<and> matches os [''foo''] ''foo/bar'' = Some True
     \<and> matches os [''foo''] ''bar/foo'' = Some True
     \<and> matches os [''foo''] ''foobar'' = Some False
     \<and> matches os [''foo''] ''barfoo'' = Some False"
    by (simp add: matches_platform [where os = os])
  then show ?thesis
    using matches_literal[of p os path] matches_literal_itself[of p os]
      matches_literal_below[of p rest os] matches_literal_inside[of p dir os]
    by blast
qed

theorem C1_literal_rule_witness:
  "literal_rule ''foo'' \<and> newline \<notin> set ''bar''
   \<and> matches Unix [''foo''] ''foo'' = Some True
   \<and> matches Unix [''foo''] (''foo'' @ ''/'' @ ''bar'') = Some True
   \<and> matches Unix [''foo''] (''bar'' @ ''/'' @ ''foo'') = Some True"
proof -
  have l: "literal_rule ''foo''" by code_simp
  have n: "newline \<notin> set ''bar''" by simp
  show ?thesis
    using l n C1_literal_rule [of "''foo''" Unix "''foo''" "''bar''" "''bar''"]
    by blast
qed

text \<open>
  C2, as the source has it. After the leading \<open>!\<close> is taken off, the test with
  the expression \<open>^([#!])\<close> takes a second leading \<open>!\<close> or \<open>#\<close> off as well:
  the lines \<open>!#foo\<close> and \<open>!!foo\<close> both compile to the negated rule of the
  pattern \<open>foo\<close>. So \<open>!#foo\<close> takes \<open>foo\<close> back out of the ignored paths, and
  leaves the path \<open>#foo\<close> ignored when the rule \<open>\#foo\<close> ignores it; likewise
  for \<open>!!foo\<close> and the path \<open>!foo\<close>.
\<close>

theorem C2_second_marker_is_dropped:
  "Parse_line ''!#foo'' = Some (True, ''^(|.*/)foo(|/.*)$'')
   \<and> Parse_line ''!!foo'' = Some (True, ''^(|.*/)foo(|/.*)$'')
   \<and> Parse_line ''foo'' = Some (False, ''^(|.*/)foo(|/.*)$'')
   \<and> matches os [''foo''] ''#foo'' = Some False
   \<and> matches os [''foo''] ''!foo'' = Some False
   \<and> matches os [''foo'', ''!#foo''] ''foo'' = Some False
   \<and> matches os [''foo'', ''!!foo''] ''foo'' = Some False
   \<and> matches os [backslash # ''#foo'', ''!#foo''] ''#foo'' = Some True
   \<and> matches os [backslash # ''!foo'', ''!!foo''] ''!foo'' = Some True"
proof -
  have "Parse_line ''!#foo'' = Some (True, ''^(|.*/)foo(|/.*)$'')" by code_simp
  moreover have "Parse_line ''!!foo'' = Some (True, ''^(|.*/)foo(|/.*)$'')" by code_simp
  moreover have "Parse_line ''foo'' = Some (False, ''^(|.*/)foo(|/.*)$'')" by code_simp
  moreover have "matches Unix [''foo''] ''#foo'' = Some False" by code_simp
  moreover have "matches Unix [''foo''] ''!foo'' = Some False" by code_simp
  moreover have "matches Unix [''foo'', ''!#foo''] ''foo'' = Some False" by code_simp
  moreover have "matches Unix [''foo'', ''!!foo''] ''foo'' = Some False" by code_simp
  moreover have "matches Unix [backslash # ''#foo'', ''!#foo''] ''#foo'' = Some True"
    by code_simp
  moreover have "matches Unix [backslash # ''!foo'', ''!!foo''] ''!foo'' = Some True"
    by code_simp
  ultimately show ?thesis by (simp add: matches_platform [where os = os])
qed

text \<open>
  C3. \<open>Match\<close> replaces the platform's separator by \<open>/\<close> in the path and scans
  the rules in their order, starting from the verdict false. A negated rule
  that accepts the path makes the answer false whatever came before and
  whatever follows; a rule that is not negated and accepts the path sets the
  verdict to true and the scan goes on; a rule that does not accept the path
  leaves the verdict; at the end the verdict is returned. For the rules
  \<open>*.log\<close> and \<open>!important.log\<close> the answer for \<open>important.log\<close> is false.
\<close>

theorem C3_Match_scan:
  "Match os f path =
     Match_loop (patterns f) (map (\<lambda>c. if c = PathSeparator os then CHR ''/'' else c) path) False
   \<and> (patterns f = pre @ r # post \<and> Negate r
        \<and> MatchString (Regex r) (map (\<lambda>c. if c = PathSeparator os then CHR ''/'' else c) path)
        \<longrightarrow> Match os f path = False)
   \<and> (MatchString (Regex r) p \<and> Negate r \<longrightarrow> Match_loop (r # rs) p v = False)
   \<and> (MatchString (Regex r) p \<and> \<not> Negate r \<longrightarrow> Match_loop (r # rs) p v = Match_loop rs p True)
   \<and> (\<not> MatchString (Regex r) p \<longrightarrow> Match_loop (r # rs) p v = Match_loop rs p v)
   \<and> Match_loop [] p v = v
   \<and> matches os [''*.log'', ''!important.log''] ''important.log'' = Some False"
proof -
  have norm: "strings_ReplaceAll path [PathSeparator os] ''/''
                = map (\<lambda>c. if c = PathSeparator os then CHR ''/'' else c) path"
    by (rule strings_ReplaceAll_char)
  have "matches Unix [''*.log'', ''!important.log''] ''important.log'' = Some False"
    by code_simp
  then have ex: "matches os [''*.log'', ''!important.log''] ''important.log'' = Some False"
    by (simp add: matches_platform [where os = os])
  have neg: "Match os f path = False"
    if "patterns f = pre @ r # post" "Negate r"
       "MatchString (Regex r) (map (\<lambda>c. if c = PathSeparator os then CHR ''/'' else c) path)"
    using that by (auto simp add: Match_def norm Match_loop_verdict)
  show ?thesis
    using ex neg by (simp add: Match_def norm)
qed

theorem C3_Match_scan_witness:
  "patterns \<lparr>patterns = [\<lparr>Regex = Literal CHR ''a'', Negate = False\<rparr>,
                           \<lparr>Regex = Literal CHR ''a'', Negate = True\<rparr>,
                           \<lparr>Regex = Literal CHR ''b'', Negate = False\<rparr>]\<rparr>
     = [\<lparr>Regex = Literal CHR ''a'', Negate = False\<rparr>]
       @ \<lparr>Regex = Literal CHR ''a'', Negate = True\<rparr>
       # [\<lparr>Regex = Literal CHR ''b'', Negate = False\<rparr>]
   \<and> MatchString (Literal CHR ''a'') ''ab''
   \<and> MatchString (Literal CHR ''b'') ''ab''
   \<and> \<not> MatchString (Literal CHR ''c'') ''ab''
   \<and> Match Unix \<lparr>patterns = [\<lparr>Regex = Literal CHR ''a'', Negate = False\<rparr>,
                               \<lparr>Regex = Literal CHR ''a'', Negate = True\<rparr>,
                               \<lparr>Regex = Literal CHR ''b'', Negate = False\<rparr>]\<rparr> ''ab'' = False
   \<and> Match_loop [\<lparr>Regex = Literal CHR ''a'', Negate = True\<rparr>] ''ab'' True = False
   \<and> Match_loop [\<lparr>Regex = Literal CHR ''b'', Negate = False\<rparr>] ''ab'' False = True
   \<and> Match_loop [\<lparr>Regex = Literal CHR ''c'', Negate = True\<rparr>] ''ab'' True = True"
proof -
  have a: "MatchString (Literal CHR ''a'') ''ab''" by code_simp
  have b: "MatchString (Literal CHR ''b'') ''ab''" by code_simp
  have c: "\<not> MatchString (Literal CHR ''c'') ''ab''" by code_simp
  show ?thesis
    using a b c
      C3_Match_scan [of Unix
        "\<lparr>patterns = [\<lparr>Regex = Literal CHR ''a'', Negate = False\<rparr>,
                       \<lparr>Regex = Literal CHR ''a'', Negate = True\<rparr>,
                       \<lparr>Regex = Literal CHR ''b'', Negate = False\<rparr>]\<rparr>" "''ab''"
        "[\<lparr>Regex = Literal CHR ''a'', Negate = False\<rparr>]"
        "\<lparr>Regex = Literal CHR ''a'', Negate = True\<rparr>"
        "[\<lparr>Regex = Literal CHR ''b'', Negate = False\<rparr>]" "''ab''" "[]" True]
      C3_Match_scan [of Unix "\<lparr>patterns = []\<rparr>" "''ab''" "[]"
        "\<lparr>Regex = Literal CHR ''b'', Negate = False\<rparr>" "[]" "''ab''" "[]" False]
      C3_Match_scan [of Unix "\<lparr>patterns = []\<rparr>" "''ab''" "[]"
        "\<lparr>Regex = Literal CHR ''c'', Negate = True\<rparr>" "[]" "''ab''" "[]" True]
    by simp
qed

text \<open>
  C4. For the rules \<open>*.txt\<close>, \<open>!important/*.txt\<close> and
  \<open>important/temp/*.txt\<close>, in this order, \<open>Match\<close> answers true for the path
  \<open>important/temp/data.txt\<close>. The negated rule has the expression of the rule
  \<open>important/*.txt\<close>, which does not accept this path, so that the positive
  rules decide.
\<close>

theorem C4_order_dependent_example:
  "matches os [''*.txt'', ''!important/*.txt'', ''important/temp/*.txt'']
     ''important/temp/data.txt'' = Some True
   \<and> map_option snd (Parse_line ''!important/*.txt'')
       = map_option snd (Parse_line ''important/*.txt'')
   \<and> matches os [''important/*.txt''] ''important/temp/data.txt'' = Some False"
proof -
  have "matches Unix [''*.txt'', ''!important/*.txt'', ''important/temp/*.txt'']
          ''important/temp/data.txt'' = Some True"
    by code_simp
  moreover have "map_option snd (Parse_line ''!important/*.txt'')
                   = map_option snd (Parse_line ''important/*.txt'')"
    by code_simp
  moreover have "matches Unix [''important/*.txt''] ''important/temp/data.txt'' = Some False"
    by code_simp
  ultimately show ?thesis by (simp add: matches_platform [where os = os])
qed

text \<open>
  C5. The rule \<open>**/foo\<close> matches the paths \<open>foo\<close> and \<open>bar/foo\<close> and does not
  match \<open>bar/baz\<close>; the rule \<open>/**/foo\<close> matches \<open>foo\<close>, \<open>/foo\<close> and
  \<open>bar/foo\<close>.
\<close>

theorem C5_double_star:
  "matches os [''**/foo''] ''foo'' = Some True
   \<and> matches os [''**/foo''] ''bar/foo'' = Some True
   \<and> matches os [''**/foo''] ''bar/baz'' = Some False
   \<and> matches os [''/**/foo''] ''foo'' = Some True
   \<and> matches os [''/**/foo''] ''/foo'' = Some True
   \<and> matches os [''/**/foo''] ''bar/foo'' = Some True"
proof -
  have "matches Unix [''**/foo''] ''foo'' = Some True" by code_simp
  moreover have "matches Unix [''**/foo''] ''bar/foo'' = Some True" by code_simp
  moreover have "matches Unix [''**/foo''] ''bar/baz'' = Some False" by code_simp
  moreover have "matches Unix [''/**/foo''] ''foo'' = Some True" by code_simp
  moreover have "matches Unix [''/**/foo''] ''/foo'' = Some True" by code_simp
  moreover have "matches Unix [''/**/foo''] ''bar/foo'' = Some True" by code_simp
  ultimately show ?thesis by (simp add: matches_platform [where os = os])
qed

text \<open>
  C6, against the general sentence of the claim. Below the directory of the
  rule \<open>foo/\<close> the path \<open>foo/a\<close>, newline, \<open>b\<close> is not matched, since \<open>.\<close> does
  not match a newline; and the rule \<open>foo/**/\<close>, which ends in \<open>/\<close> too, does
  not match the path \<open>foo/a/b\<close>.
\<close>

theorem C6_below_not_matched:
  "matches Unix [''foo/''] (''foo/a'' @ [newline] @ ''b'') = Some False
   \<and> matches Unix [''foo/**/''] ''foo/a/b'' = Some False"
proof -
  have "matches Unix [''foo/''] (''foo/a'' @ [newline] @ ''b'') = Some False" by code_simp
  moreover have "matches Unix [''foo/**/''] ''foo/a/b'' = Some False" by code_simp
  ultimately show ?thesis by simp
qed

text \<open>
  C6, as the source has it. The rule \<open>foo/\<close> matches the paths \<open>foo/\<close> and
  \<open>foo/bar\<close> and does not match the path \<open>foo\<close>. In general, let \<open>p\<close> be a
  directory rule: ASCII characters none of which is special in a rule or in
  an expression, not beginning with \<open>#\<close>, \<open>!\<close>, a space or \<open>/\<close>, and ending in
  \<open>/\<close>. For the rule set compiled from \<open>p\<close> alone, \<open>Match\<close> answers true exactly
  for the paths in which, after the separators are normalized, \<open>p\<close> stands at
  the beginning or after a \<open>/\<close>, where what precedes and what follows contains
  no newline. So it answers true for \<open>p\<close> followed by anything without a
  newline, and false for \<open>p\<close> without its final \<open>/\<close>.
\<close>

theorem C6_directory_rule:
  "matches os [''foo/''] ''foo/'' = Some True
   \<and> matches os [''foo/''] ''foo/bar'' = Some True
   \<and> matches os [''foo/''] ''foo'' = Some False
   \<and> (directory_rule p \<longrightarrow>
        matches os [p] path
          = Some (\<exists>pre post. stands_in p (map (\<lambda>c. if c = PathSeparator os then CHR ''/'' else c) path) pre post))
   \<and> (directory_rule p \<and> newline \<notin> set rest \<longrightarrow> matches os [p] (p @ rest) = Some True)
   \<and> (directory_rule p \<longrightarrow> matches os [p] (butlast p) = Some False)"
proof -
  have "matches Unix [''foo/''] ''foo/'' = Some True" by code_simp
  moreover have "matches Unix [''foo/''] ''foo/bar'' = Some True" by code_simp
  moreover have "matches Unix [''foo/''] ''foo'' = Some False" by code_simp
  ultimately have
    "matches os [''foo/''] ''foo/'' = Some True
     \<and> matches os [''foo/''] ''foo/bar'' = Some True
     \<and> matches os [''foo/''] ''foo'' = Some False"
    by (simp add: matches_platform [where os = os])
  then show ?thesis
    using matches_directory[of p os path] matches_directory_below[of p rest os]
      matches_directory_bare[of p os]
    by blast
qed

theorem C6_directory_rule_witness:
  "directory_rule ''foo/'' \<and> newline \<notin> set ''bar''
   \<and> matches Unix [''foo/''] (''foo/'' @ ''bar'') = Some True
   \<and> matches Unix [''foo/''] (butlast ''foo/'') = Some False"
proof -
  have d: "directory_rule ''foo/''" by code_simp
  have n: "newline \<notin> set ''bar''" by simp
  show ?thesis
    using d n C6_directory_rule [of Unix "''foo/''" "''foo/bar''" "''bar''"]
    by blast
qed




text \<open>
  C8. When \<open>Parse\<close> reaches a line whose expression \<open>regexp.Compile\<close> rejects,
  the whole compilation fails: \<open>NewFromLines\<close> returns the error
  \<open>ErrRegexCompile\<close>, which carries the expression, the number of the line and
  the cause, and no rule set. The line \<open>[invalid-regex\<close> alone fails with line
  1 and a missing closing bracket; between the valid rules \<open>*.log\<close> and
  \<open>*.tmp\<close> it fails as well, with its own line number 2.
\<close>

theorem C8_compile_error:
  "(lines = pre @ l # post \<and> (\<forall>x\<in>set lines. newline \<notin> set x) \<and> (\<forall>x\<in>set pre. line_ok x)
      \<and> \<not> ErrTooLong l \<and> Parse_line (dropCR l) = Some (neg, expr)
      \<and> regexp_Compile expr = Err cause
      \<longrightarrow> NewFromLines lines
            = Err (ErrRegexCompile (ErrInvalidRegex expr (length pre + 1) cause)))
   \<and> NewFromLines [''[invalid-regex'']
       = Err (ErrRegexCompile
                (ErrInvalidRegex ''^(|.*/)[invalid-regex(|/.*)$'' 1 ErrMissingBracket))
   \<and> NewFromLines [''*.log'', ''[invalid-regex'', ''*.tmp'']
       = Err (ErrRegexCompile
                (ErrInvalidRegex ''^(|.*/)[invalid-regex(|/.*)$'' 2 ErrMissingBracket))
   \<and> matches os [''[invalid-regex''] path = None
   \<and> matches os [''*.log'', ''[invalid-regex'', ''*.tmp''] path = None"
proof -
  have a: "NewFromLines [''[invalid-regex'']
       = Err (ErrRegexCompile
                (ErrInvalidRegex ''^(|.*/)[invalid-regex(|/.*)$'' 1 ErrMissingBracket))"
    by code_simp
  have b: "NewFromLines [''*.log'', ''[invalid-regex'', ''*.tmp'']
       = Err (ErrRegexCompile
                (ErrInvalidRegex ''^(|.*/)[invalid-regex(|/.*)$'' 2 ErrMissingBracket))"
    by code_simp
  have c: "NewFromLines lines
             = Err (ErrRegexCompile (ErrInvalidRegex expr (length pre + 1) cause))"
    if "lines = pre @ l # post" "\<forall>x\<in>set lines. newline \<notin> set x" "\<forall>x\<in>set pre. line_ok x"
       "\<not> ErrTooLong l" "Parse_line (dropCR l) = Some (neg, expr)"
       "regexp_Compile expr = Err cause"
    using that by (rule NewFromLines_first_error)
  have d: "matches os [''[invalid-regex''] path = None"
    "matches os [''*.log'', ''[invalid-regex'', ''*.tmp''] path = None"
    by (simp_all add: matches_def a b)
  show ?thesis
    using a b c d by blast
qed

theorem C8_compile_error_witness:
  "[''*.log'', ''[invalid-regex'', ''*.tmp''] = [''*.log''] @ ''[invalid-regex'' # [''*.tmp'']
   \<and> newline \<notin> set ''*.log'' \<and> newline \<notin> set ''[invalid-regex'' \<and> newline \<notin> set ''*.tmp''
   \<and> line_ok ''*.log''
   \<and> \<not> ErrTooLong ''[invalid-regex''
   \<and> Parse_line (dropCR ''[invalid-regex'') = Some (False, ''^(|.*/)[invalid-regex(|/.*)$'')
   \<and> regexp_Compile ''^(|.*/)[invalid-regex(|/.*)$'' = Err ErrMissingBracket
   \<and> NewFromLines [''*.log'', ''[invalid-regex'', ''*.tmp'']
       = Err (ErrRegexCompile
                (ErrInvalidRegex ''^(|.*/)[invalid-regex(|/.*)$'' (length [''*.log''] + 1)
                   ErrMissingBracket))"
proof -
  have h1: "line_ok ''*.log''" by code_simp
  have h2: "\<not> ErrTooLong ''[invalid-regex''" by code_simp
  have h3: "Parse_line (dropCR ''[invalid-regex'')
              = Some (False, ''^(|.*/)[invalid-regex(|/.*)$'')"
    by code_simp
  have h4: "regexp_Compile ''^(|.*/)[invalid-regex(|/.*)$'' = Err ErrMissingBracket"
    by code_simp
  show ?thesis
    using h1 h2 h3 h4
      C8_compile_error [of "[''*.log'', ''[invalid-regex'', ''*.tmp'']" "[''*.log'']"
        "''[invalid-regex''" "[''*.tmp'']" False "''^(|.*/)[invalid-regex(|/.*)$''"
        ErrMissingBracket Unix "[]"]
    by simp
qed



text \<open>
  C10. The verdict of \<open>Match\<close> does not depend on the order of the rules: it
  is true exactly when some rule that is not negated accepts the normalized
  path and no negated rule accepts it. Two rule sets with the same rules in
  any order and multiplicity give the same verdict, and the empty rule set
  gives false.
\<close>

theorem C10_order_free:
  "Match os f path =
     ((\<exists>r\<in>set (patterns f). \<not> Negate r
          \<and> MatchString (Regex r) (strings_ReplaceAll path [PathSeparator os] ''/''))
      \<and> (\<forall>r\<in>set (patterns f). Negate r
          \<longrightarrow> \<not> MatchString (Regex r) (strings_ReplaceAll path [PathSeparator os] ''/'')))
   \<and> (mset (patterns f) = mset (patterns g) \<longrightarrow> Match os f path = Match os g path)
   \<and> Match os \<lparr>patterns = []\<rparr> path = False"
proof -
  have "mset (patterns f) = mset (patterns g) \<Longrightarrow> set (patterns f) = set (patterns g)"
    by (rule mset_eq_setD)
  then show ?thesis
    by (auto simp add: Match_def Match_loop_verdict)
qed

theorem C10_order_free_witness:
  "mset [\<lparr>Regex = Literal CHR ''a'', Negate = False\<rparr>, \<lparr>Regex = Literal CHR ''b'', Negate = True\<rparr>]
     = mset [\<lparr>Regex = Literal CHR ''b'', Negate = True\<rparr>, \<lparr>Regex = Literal CHR ''a'', Negate = False\<rparr>]
   \<and> Match Unix \<lparr>patterns = [\<lparr>Regex = Literal CHR ''a'', Negate = False\<rparr>,
                               \<lparr>Regex = Literal CHR ''b'', Negate = True\<rparr>]\<rparr> ''ab''
     = Match Unix \<lparr>patterns = [\<lparr>Regex = Literal CHR ''b'', Negate = True\<rparr>,
                                 \<lparr>Regex = Literal CHR ''a'', Negate = False\<rparr>]\<rparr> ''ab''
   \<and> \<not> Match Unix \<lparr>patterns = [\<lparr>Regex = Literal CHR ''a'', Negate = False\<rparr>,
                               \<lparr>Regex = Literal CHR ''b'', Negate = True\<rparr>]\<rparr> ''ab''"
proof -
  have a: "MatchString (Literal CHR ''a'') ''ab''" by code_simp
  have b: "MatchString (Literal CHR ''b'') ''ab''" by code_simp
  show ?thesis
    using a b
      C10_order_free [of Unix
        "\<lparr>patterns = [\<lparr>Regex = Literal CHR ''a'', Negate = False\<rparr>,
                       \<lparr>Regex = Literal CHR ''b'', Negate = True\<rparr>]\<rparr>" "''ab''"
        "\<lparr>patterns = [\<lparr>Regex = Literal CHR ''b'', Negate = True\<rparr>,
                       \<lparr>Regex = Literal CHR ''a'', Negate = False\<rparr>]\<rparr>"]
    by (auto simp add: strings_ReplaceAll_same)
qed

end
